theory Spec2Isabelle
  imports Main
begin

section \<open>Data model of aten/src/THC/THCTensor.cpp\<close>

text \<open>
  The functions of THCTensor.cpp work on two kinds of heap objects reached through
  pointers: views (\<open>_THCTensor\<close>) and the storages they share (\<open>THCStorage\<close>).
  Both live in an explicit store indexed by addresses, so that two views can name the
  same storage and \<open>self != src\<close> is a comparison of addresses.

  Every way the C code can leave a function other than by returning is a value of
  \<open>error\<close>: \<open>ArgError\<close> is a failed \<open>THArgCheck\<close> (argument number and message),
  \<open>THError\<close> a call of \<open>THError\<close>, \<open>AllocationError\<close> a failed grow request.
  The remaining constructors stand for undefined behaviour of the C program: reading
  through a view pointer that names no live view (\<open>InvalidView\<close>), through a null
  storage pointer (\<open>NullDeref\<close>), through a storage pointer whose storage has been
  freed (\<open>UseAfterFree\<close>), an array read at a negative index (\<open>OutOfBounds\<close>) and
  signed integer overflow in an operation that writes a view (\<open>SignedOverflow\<close>).
\<close>

datatype error =
    ArgError nat string
  | THError string
  | AllocationError
  | InvalidView
  | NullDeref
  | UseAfterFree
  | OutOfBounds
  | SignedOverflow

type_synonym addr = nat

text \<open>\<open>THCStorage\<close>: the fields \<open>size\<close>, \<open>scalar_type\<close> and \<open>refcount\<close>.\<close>

record THCStorage =
  size_st :: int
  scalar_type :: nat
  refcount_st :: int

text \<open>
  \<open>_THCTensor\<close>: \<open>size\<close> and \<open>stride\<close> are the heap arrays as allocated (their
  length is the allocated length, which \<open>THCTensor_squeeze1d\<close> and a resize to rank 0
  leave longer than \<open>nDimension\<close>); \<open>storage\<close> is a nullable pointer.
\<close>

record THCTensor =
  nDimension :: int
  size_arr :: "int list"
  stride_arr :: "int list"
  storage :: "addr option"
  storageOffset :: int

record heap =
  tensors :: "addr \<Rightarrow> THCTensor option"
  storages :: "addr \<Rightarrow> THCStorage option"
  next_storage :: addr

text \<open>
  An operation returns \<open>Inr h'\<close> with the heap it leaves, or \<open>Inl (e, h')\<close> with the
  error and the heap as it was when the error was raised.
\<close>

type_synonym result = "(error \<times> heap) + heap"

definition heap_of :: "result \<Rightarrow> heap" where
  "heap_of r = (case r of Inl (e, h) \<Rightarrow> h | Inr h \<Rightarrow> h)"

definition set_tensor :: "heap \<Rightarrow> addr \<Rightarrow> THCTensor \<Rightarrow> heap" where
  "set_tensor h p t = h\<lparr>tensors := (tensors h)(p \<mapsto> t)\<rparr>"

subsection \<open>64-bit signed arithmetic\<close>

text \<open>
  \<open>int64_t\<close> and \<open>ptrdiff_t\<close> values are integers. In the operations that write a view,
  and in the contiguity check, a product or sum that leaves the 64-bit signed range
  (undefined behaviour in C) is the error \<open>SignedOverflow\<close>.
\<close>

definition int64_ok :: "int \<Rightarrow> bool" where
  "int64_ok x \<longleftrightarrow> - (2 ^ 63) \<le> x \<and> x < 2 ^ 63"

definition mul64 :: "int \<Rightarrow> int \<Rightarrow> error + int" where
  "mul64 a b = (if int64_ok (a * b) then Inr (a * b) else Inl SignedOverflow)"

definition add64 :: "int \<Rightarrow> int \<Rightarrow> error + int" where
  "add64 a b = (if int64_ok (a + b) then Inr (a + b) else Inl SignedOverflow)"

text \<open>
  What the compiled code computes where the C value is out of range: a 64-bit product is
  kept modulo \<open>2^64\<close> in two's complement (\<open>wrap64\<close>), and the conversion of a
  \<open>ptrdiff_t\<close> to \<open>int\<close> keeps the low 32 bits (\<open>to_int32\<close>).
\<close>

definition wrap64 :: "int \<Rightarrow> int" where
  "wrap64 x = (x + 2 ^ 63) mod 2 ^ 64 - 2 ^ 63"

definition to_int32 :: "int \<Rightarrow> int" where
  "to_int32 x = (x + 2 ^ 31) mod 2 ^ 32 - 2 ^ 31"

text \<open>
  \<open>THRealloc(p, sizeof(int64_t) * n)\<close>: the first entries are kept; entries beyond the old
  length are uninitialised in C (0 here) and every caller writes them before reading them.
\<close>

definition THRealloc :: "int list \<Rightarrow> nat \<Rightarrow> int list" where
  "THRealloc xs n = take n xs @ replicate (n - length xs) 0"

subsection \<open>Storage operations\<close>

text \<open>
  Modelled from the spec: \<open>THCStorage_new\<close>, \<open>THCStorage_retain\<close>, \<open>THCStorage_free\<close>
  and \<open>THCStorage_resize\<close> are called by THCTensor.cpp and defined elsewhere in the
  repository. Section 3 and 4.1 of the specification: a Storage is "created empty
  (capacity 0)", "destroyed when its reference count reaches zero"; retain "increments
  x's reference count", release "decrements; on reaching zero ... frees the underlying
  buffer"; grow "reallocates the buffer to at least the requested capacity ... never
  shrinks; fails with an allocation error if memory cannot be obtained". Whether the
  allocation backend can supply a buffer of \<open>n\<close> elements is the parameter \<open>alloc\<close>.
\<close>

definition THCStorage_new :: "heap \<Rightarrow> nat \<Rightarrow> heap \<times> addr" where
  "THCStorage_new h ty =
     (h\<lparr>storages := (storages h)(next_storage h \<mapsto>
           \<lparr>size_st = 0, scalar_type = ty, refcount_st = 1\<rparr>),
        next_storage := Suc (next_storage h)\<rparr>,
      next_storage h)"

definition THCStorage_retain :: "heap \<Rightarrow> addr \<Rightarrow> result" where
  "THCStorage_retain h s =
     (case storages h s of
        None \<Rightarrow> Inl (UseAfterFree, h)
      | Some st \<Rightarrow>
          Inr (h\<lparr>storages := (storages h)(s \<mapsto> st\<lparr>refcount_st := refcount_st st + 1\<rparr>)\<rparr>))"

definition THCStorage_free :: "heap \<Rightarrow> addr \<Rightarrow> result" where
  "THCStorage_free h s =
     (case storages h s of
        None \<Rightarrow> Inl (UseAfterFree, h)
      | Some st \<Rightarrow>
          (if refcount_st st - 1 = 0
           then Inr (h\<lparr>storages := (storages h)(s := None)\<rparr>)
           else Inr (h\<lparr>storages :=
                  (storages h)(s \<mapsto> st\<lparr>refcount_st := refcount_st st - 1\<rparr>)\<rparr>)))"

definition THCStorage_resize :: "(int \<Rightarrow> bool) \<Rightarrow> heap \<Rightarrow> addr \<Rightarrow> int \<Rightarrow> result" where
  "THCStorage_resize alloc h s n =
     (case storages h s of
        None \<Rightarrow> Inl (UseAfterFree, h)
      | Some st \<Rightarrow>
          (if alloc n
           then Inr (h\<lparr>storages := (storages h)(s \<mapsto> st\<lparr>size_st := max (size_st st) n\<rparr>)\<rparr>)
           else Inl (AllocationError, h)))"

text \<open>The read \<open>p->scalar_type\<close> through a nullable storage pointer \<open>p\<close>.\<close>

definition read_scalar_type :: "heap \<Rightarrow> addr option \<Rightarrow> error + nat" where
  "read_scalar_type h p =
     (case p of
        None \<Rightarrow> Inl NullDeref
      | Some a \<Rightarrow>
          (case storages h a of
             None \<Rightarrow> Inl UseAfterFree
           | Some st \<Rightarrow> Inr (scalar_type st)))"

section \<open>The resize engine\<close>

text \<open>
  Lines 64-78 of \<open>THCTensor_resizeNd\<close>: the scan over the requested sizes. It counts the
  leading strictly positive entries in \<open>nDimension_\<close> (here \<open>cnt\<close>) and clears
  \<open>hascorrectsize\<close> when a requested size, or an explicit non-negative stride, differs
  from the one stored at an index the view already has.
\<close>

function resize_scan ::
  "THCTensor \<Rightarrow> int \<Rightarrow> int list \<Rightarrow> int list option \<Rightarrow> nat \<Rightarrow> int \<Rightarrow> bool \<Rightarrow> int \<times> bool" where
  "resize_scan self nDim sz st d cnt hascorrectsize =
     (if int d < nDim then
        (if sz ! d > 0 then
           resize_scan self nDim sz st (d + 1) (cnt + 1)
             (hascorrectsize
              \<and> \<not> (nDimension self > int d \<and> sz ! d \<noteq> size_arr self ! d)
              \<and> \<not> (nDimension self > int d
                    \<and> (case st of None \<Rightarrow> False
                        | Some str \<Rightarrow> str ! d \<ge> 0 \<and> str ! d \<noteq> stride_arr self ! d)))
         else (cnt, hascorrectsize))
      else (cnt, hascorrectsize))"
  by pat_completeness auto
termination
  by (relation "measure (\<lambda>(self, nDim, sz, st, d, cnt, h). nat (nDim - int d))") auto

text \<open>
  Lines 100-108: the stride written at index \<open>d\<close>: the explicit one when a stride array
  is given and its entry is non-negative, otherwise 1 at the last index and
  \<open>size[d+1] * stride[d+1]\<close> elsewhere.
\<close>

definition default_stride :: "THCTensor \<Rightarrow> nat \<Rightarrow> error + int" where
  "default_stride self d =
     (if int d = nDimension self - 1 then Inr 1
      else mul64 (size_arr self ! (d + 1)) (stride_arr self ! (d + 1)))"

definition new_stride :: "int list option \<Rightarrow> THCTensor \<Rightarrow> nat \<Rightarrow> error + int" where
  "new_stride st self d =
     (case st of
        Some str \<Rightarrow> (if str ! d \<ge> 0 then Inr (str ! d) else default_stride self d)
      | None \<Rightarrow> default_stride self d)"

text \<open>
  Lines 97-110: the loop \<open>for(d = self->nDimension-1; d >= 0; d--)\<close>; the first argument
  counts the indices still to visit, so \<open>Suc d\<close> visits index \<open>d\<close>. The result is the
  view with its arrays written and \<open>totalSize\<close>. The scan has let only positive sizes
  through, so \<open>size[d] - 1\<close> cannot overflow; the product and the sum can.
\<close>

fun resize_fill ::
  "int list \<Rightarrow> int list option \<Rightarrow> nat \<Rightarrow> THCTensor \<Rightarrow> int
     \<Rightarrow> (error \<times> THCTensor) + (THCTensor \<times> int)" where
  "resize_fill sz st 0 self totalSize = Inr (self, totalSize)"
| "resize_fill sz st (Suc d) self totalSize =
     (let self1 = self\<lparr>size_arr := (size_arr self)[d := sz ! d]\<rparr> in
      case new_stride st self1 d of
        Inl e \<Rightarrow> Inl (e, self1)
      | Inr s \<Rightarrow>
          (let self2 = self1\<lparr>stride_arr := (stride_arr self1)[d := s]\<rparr> in
           case mul64 (size_arr self2 ! d - 1) (stride_arr self2 ! d) of
             Inl e \<Rightarrow> Inl (e, self2)
           | Inr p \<Rightarrow>
               (case add64 totalSize p of
                  Inl e \<Rightarrow> Inl (e, self2)
                | Inr t \<Rightarrow> resize_fill sz st d self2 t)))"

text \<open>
  Lines 112-118: the storage the new footprint needs. Line 115 reads
  \<open>self->storage->scalar_type\<close> inside the branch \<open>!self->storage\<close>.
\<close>

definition resize_storage :: "(int \<Rightarrow> bool) \<Rightarrow> heap \<Rightarrow> addr \<Rightarrow> THCTensor \<Rightarrow> int \<Rightarrow> result" where
  "resize_storage alloc h self t need =
     (if need > 0 then
        (case (case storage t of
                 None \<Rightarrow>
                   (case read_scalar_type h (storage t) of
                      Inl e \<Rightarrow> Inl (e, h)
                    | Inr ty \<Rightarrow>
                        (let (h1, a) = THCStorage_new h ty
                         in Inr (set_tensor h1 self (t\<lparr>storage := Some a\<rparr>), a)))
               | Some a \<Rightarrow> Inr (h, a)) of
           Inl e \<Rightarrow> Inl e
         | Inr (h2, a) \<Rightarrow>
             (case storages h2 a of
                None \<Rightarrow> Inl (UseAfterFree, h2)
              | Some stg \<Rightarrow>
                  (if need > size_st stg then THCStorage_resize alloc h2 a need
                   else Inr h2)))
      else Inr h)"

definition THCTensor_resizeNd ::
  "(int \<Rightarrow> bool) \<Rightarrow> heap \<Rightarrow> addr \<Rightarrow> int \<Rightarrow> int list \<Rightarrow> int list option \<Rightarrow> result" where
  "THCTensor_resizeNd alloc h self nDim sz st =
     (case tensors h self of
        None \<Rightarrow> Inl (InvalidView, h)
      | Some t \<Rightarrow>
          (let (nDim', hcs) = resize_scan t nDim sz st 0 0 True;
               hascorrectsize = (hcs \<and> nDim' = nDimension t)
           in if hascorrectsize then Inr h
              else if nDim' > 0 then
                (let t1 = (if nDim' \<noteq> nDimension t
                           then t\<lparr>nDimension := nDim',
                                  size_arr := THRealloc (size_arr t) (nat nDim'),
                                  stride_arr := THRealloc (stride_arr t) (nat nDim')\<rparr>
                           else t)
                 in case resize_fill sz st (nat (nDimension t1)) t1 1 of
                      Inl (e, t2) \<Rightarrow> Inl (e, set_tensor h self t2)
                    | Inr (t2, totalSize) \<Rightarrow>
                        (case add64 totalSize (storageOffset t2) of
                           Inl e \<Rightarrow> Inl (e, set_tensor h self t2)
                         | Inr need \<Rightarrow>
                             resize_storage alloc (set_tensor h self t2) self t2 need))
              else Inr (set_tensor h self (t\<lparr>nDimension := 0\<rparr>))))"

text \<open>
  \<open>THCTensor_resize\<close> (lines 29-35): the size and stride arguments are \<open>THLongStorage\<close>
  pointers, the size one required. Line 34 passes \<open>size->size\<close>, a \<open>ptrdiff_t\<close>, for
  the \<open>int\<close> parameter \<open>nDimension\<close> of \<open>THCTensor_resizeNd\<close>.
\<close>

definition THCTensor_resize ::
  "(int \<Rightarrow> bool) \<Rightarrow> heap \<Rightarrow> addr \<Rightarrow> int list option \<Rightarrow> int list option \<Rightarrow> result" where
  "THCTensor_resize alloc h self size_opt stride_opt =
     (case size_opt of
        None \<Rightarrow> Inl (ArgError 2 ''invalid size'', h)
      | Some sz \<Rightarrow>
          (if (case stride_opt of None \<Rightarrow> False | Some str \<Rightarrow> length str \<noteq> length sz)
           then Inl (ArgError 3 ''invalid stride'', h)
           else THCTensor_resizeNd alloc h self (to_int32 (int (length sz))) sz stride_opt))"

text \<open>\<open>THCTensor_resizeAs\<close> (lines 37-55).\<close>

function sizes_same :: "THCTensor \<Rightarrow> THCTensor \<Rightarrow> nat \<Rightarrow> bool" where
  "sizes_same self src d =
     (if int d < nDimension self then
        (if size_arr self ! d \<noteq> size_arr src ! d then False
         else sizes_same self src (d + 1))
      else True)"
  by pat_completeness auto
termination
  by (relation "measure (\<lambda>(self, src, d). nat (nDimension self - int d))") auto

definition THCTensor_resizeAs :: "(int \<Rightarrow> bool) \<Rightarrow> heap \<Rightarrow> addr \<Rightarrow> addr \<Rightarrow> result" where
  "THCTensor_resizeAs alloc h self src =
     (case (tensors h self, tensors h src) of
        (Some t, Some s) \<Rightarrow>
          (let isSame = (nDimension t = nDimension s \<and> sizes_same t s 0)
           in if \<not> isSame
              then THCTensor_resizeNd alloc h self (nDimension s) (size_arr s) None
              else Inr h)
      | _ \<Rightarrow> Inl (InvalidView, h))"

section \<open>Rebinding and assignment\<close>

text \<open>
  \<open>THCTensor_setStorageNd\<close> (lines 136-160), its block \<open>/* storage */\<close> (lines 139-151)
  first. In the branch of line 150 \<open>self->storage\<close> still holds the pointer that line
  142 has just released.
\<close>

definition setStorageNd_storage :: "heap \<Rightarrow> addr \<Rightarrow> THCTensor \<Rightarrow> addr option \<Rightarrow> result" where
  "setStorageNd_storage h self t storage' =
     (if storage t \<noteq> storage' then
        (case (case storage t of
                 Some old \<Rightarrow> THCStorage_free h old
               | None \<Rightarrow> Inr h) of
           Inl e \<Rightarrow> Inl e
         | Inr h1 \<Rightarrow>
             (case storage' of
                Some s \<Rightarrow>
                  THCStorage_retain (set_tensor h1 self (t\<lparr>storage := Some s\<rparr>)) s
              | None \<Rightarrow>
                  (case read_scalar_type h1 (storage t) of
                     Inl e \<Rightarrow> Inl (e, h1)
                   | Inr ty \<Rightarrow>
                       (let (h2, a) = THCStorage_new h1 ty
                        in Inr (set_tensor h2 self (t\<lparr>storage := Some a\<rparr>))))))
      else Inr h)"

definition THCTensor_setStorageNd ::
  "(int \<Rightarrow> bool) \<Rightarrow> heap \<Rightarrow> addr \<Rightarrow> addr option \<Rightarrow> int \<Rightarrow> int \<Rightarrow> int list \<Rightarrow> int list option
     \<Rightarrow> result" where
  "THCTensor_setStorageNd alloc h self storage' storageOffset' nDim sz st =
     (case tensors h self of
        None \<Rightarrow> Inl (InvalidView, h)
      | Some t \<Rightarrow>
          (case setStorageNd_storage h self t storage' of
             Inl e \<Rightarrow> Inl e
           | Inr h3 \<Rightarrow>
               (if storageOffset' < 0
                then Inl (THError ''Tensor: invalid storage offset'', h3)
                else
                  (case tensors h3 self of
                     None \<Rightarrow> Inl (InvalidView, h3)
                   | Some t3 \<Rightarrow>
                       THCTensor_resizeNd alloc
                         (set_tensor h3 self (t3\<lparr>storageOffset := storageOffset'\<rparr>))
                         self nDim sz st))))"

text \<open>\<open>THCTensor_set\<close> (lines 124-134).\<close>

definition THCTensor_set :: "(int \<Rightarrow> bool) \<Rightarrow> heap \<Rightarrow> addr \<Rightarrow> addr \<Rightarrow> result" where
  "THCTensor_set alloc h self src =
     (if self \<noteq> src then
        (case tensors h src of
           None \<Rightarrow> Inl (InvalidView, h)
         | Some s \<Rightarrow>
             THCTensor_setStorageNd alloc h self (storage s) (storageOffset s)
               (nDimension s) (size_arr s) (Some (stride_arr s)))
      else Inr h)"

section \<open>Squeeze and unsqueeze\<close>

text \<open>Lines 176-180: \<open>for(d = dimension; d < self->nDimension-1; d++)\<close>.\<close>

function squeeze_shift :: "THCTensor \<Rightarrow> nat \<Rightarrow> THCTensor" where
  "squeeze_shift self d =
     (if int d < nDimension self - 1 then
        squeeze_shift
          (self\<lparr>size_arr := (size_arr self)[d := size_arr self ! (d + 1)],
                stride_arr := (stride_arr self)[d := stride_arr self ! (d + 1)]\<rparr>)
          (d + 1)
      else self)"
  by pat_completeness auto
termination
  by (relation "measure (\<lambda>(self, d). nat (nDimension self - 1 - int d))") auto

text \<open>
  \<open>THCTensor_squeeze1d\<close> (lines 163-183). The argument check of line 170 has no lower
  bound, so a negative \<open>dimension\<close> reaches the read \<open>src->size[dimension]\<close> of line
  174, which is then a read before the array (\<open>OutOfBounds\<close>).
\<close>

definition THCTensor_squeeze1d ::
  "(int \<Rightarrow> bool) \<Rightarrow> heap \<Rightarrow> addr \<Rightarrow> addr option \<Rightarrow> int \<Rightarrow> result" where
  "THCTensor_squeeze1d alloc h self src_opt dimension =
     (let src = (case src_opt of None \<Rightarrow> self | Some p \<Rightarrow> p) in
      case tensors h src of
        None \<Rightarrow> Inl (InvalidView, h)
      | Some s0 \<Rightarrow>
          (if \<not> dimension < nDimension s0
           then Inl (ArgError 3 ''dimension out of range'', h)
           else
             (case THCTensor_set alloc h self src of
                Inl e \<Rightarrow> Inl e
              | Inr h1 \<Rightarrow>
                  (case (tensors h1 src, tensors h1 self) of
                     (Some s, Some t) \<Rightarrow>
                       (if dimension < 0 then Inl (OutOfBounds, h1)
                        else if size_arr s ! nat dimension = 1 \<and> nDimension s > 1 then
                          (let t1 = squeeze_shift t (nat dimension)
                           in Inr (set_tensor h1 self (t1\<lparr>nDimension := nDimension t1 - 1\<rparr>)))
                        else Inr h1)
                   | _ \<Rightarrow> Inl (InvalidView, h1)))))"

text \<open>Lines 200-203: \<open>for (d = self->nDimension-1; d > dimension; d--)\<close>.\<close>

function unsqueeze_shift :: "nat \<Rightarrow> THCTensor \<Rightarrow> nat \<Rightarrow> THCTensor" where
  "unsqueeze_shift dimension self d =
     (if d > dimension then
        unsqueeze_shift dimension
          (self\<lparr>size_arr := (size_arr self)[d := size_arr self ! (d - 1)],
                stride_arr := (stride_arr self)[d := stride_arr self ! (d - 1)]\<rparr>)
          (d - 1)
      else self)"
  by pat_completeness auto
termination
  by (relation "measure (\<lambda>(dimension, self, d). d)") auto

text \<open>
  \<open>THCTensor_unsqueeze1d\<close> (lines 185-210). \<open>nDimension\<close> is a 32-bit \<open>int\<close>, so
  \<open>self->nDimension+1\<close> of lines 197-199 overflows at \<open>2^31 - 1\<close>.
\<close>

definition THCTensor_unsqueeze1d ::
  "(int \<Rightarrow> bool) \<Rightarrow> heap \<Rightarrow> addr \<Rightarrow> addr option \<Rightarrow> int \<Rightarrow> result" where
  "THCTensor_unsqueeze1d alloc h self src_opt dimension =
     (let src = (case src_opt of None \<Rightarrow> self | Some p \<Rightarrow> p) in
      case tensors h src of
        None \<Rightarrow> Inl (InvalidView, h)
      | Some s0 \<Rightarrow>
          (if \<not> (dimension \<ge> 0 \<and> dimension \<le> nDimension s0)
           then Inl (ArgError 3 ''dimension out of range'', h)
           else if \<not> nDimension s0 > 0
           then Inl (ArgError 3 ''cannot unsqueeze empty tensor'', h)
           else
             (case THCTensor_set alloc h self src of
                Inl e \<Rightarrow> Inl e
              | Inr h1 \<Rightarrow>
                  (case tensors h1 self of
                     None \<Rightarrow> Inl (InvalidView, h1)
                   | Some t \<Rightarrow>
                       (if nDimension t + 1 \<ge> 2 ^ 31 then Inl (SignedOverflow, h1)
                        else
                          (let t1 = t\<lparr>size_arr := THRealloc (size_arr t) (nat (nDimension t + 1)),
                                      stride_arr :=
                                        THRealloc (stride_arr t) (nat (nDimension t + 1))\<rparr>;
                               t2 = t1\<lparr>nDimension := nDimension t1 + 1\<rparr>;
                               t3 = unsqueeze_shift (nat dimension) t2 (nat (nDimension t2 - 1))
                           in case (if dimension + 1 < nDimension t3
                                    then mul64 (size_arr t3 ! nat (dimension + 1))
                                           (stride_arr t3 ! nat (dimension + 1))
                                    else Inr 1) of
                                Inl e \<Rightarrow> Inl (e, set_tensor h1 self t3)
                              | Inr s \<Rightarrow>
                                  (let t4 = t3\<lparr>stride_arr :=
                                               (stride_arr t3)[nat dimension := s]\<rparr>;
                                       t5 = t4\<lparr>size_arr := (size_arr t4)[nat dimension := 1]\<rparr>
                                   in Inr (set_tensor h1 self t5))))))))"

section \<open>Queries\<close>

text \<open>\<open>THCTensor_isContiguous\<close> (lines 212-226): \<open>Suc d\<close> visits index \<open>d\<close>.\<close>

fun contiguous_loop :: "THCTensor \<Rightarrow> nat \<Rightarrow> int \<Rightarrow> error + bool" where
  "contiguous_loop self 0 z = Inr True"
| "contiguous_loop self (Suc d) z =
     (if size_arr self ! d \<noteq> 1 then
        (if stride_arr self ! d = z then
           (case mul64 z (size_arr self ! d) of
              Inl e \<Rightarrow> Inl e
            | Inr z' \<Rightarrow> contiguous_loop self d z')
         else Inr False)
      else contiguous_loop self d z)"

definition THCTensor_isContiguous :: "THCTensor \<Rightarrow> error + bool" where
  "THCTensor_isContiguous self = contiguous_loop self (nat (nDimension self)) 1"

text \<open>
  \<open>THCTensor_nElement\<close> (lines 238-249). The function has no error path: it returns the
  \<open>ptrdiff_t\<close> that \<open>nElement *= self->size[d]\<close> has left, which is the product modulo
  \<open>2^64\<close> when the product of the sizes does not fit.
\<close>

function nElement_loop :: "THCTensor \<Rightarrow> nat \<Rightarrow> int \<Rightarrow> int" where
  "nElement_loop self d nElement =
     (if int d < nDimension self then
        nElement_loop self (d + 1) (wrap64 (nElement * size_arr self ! d))
      else nElement)"
  by pat_completeness auto
termination
  by (relation "measure (\<lambda>(self, d, nElement). nat (nDimension self - int d))") auto

definition THCTensor_nElement :: "THCTensor \<Rightarrow> int" where
  "THCTensor_nElement self =
     (if nDimension self = 0 then 0 else nElement_loop self 0 1)"

text \<open>The functions defined by general recursion are unfolded by hand, one step at a time.\<close>

declare resize_scan.simps [simp del]
declare sizes_same.simps [simp del]
declare squeeze_shift.simps [simp del]
declare unsqueeze_shift.simps [simp del]
declare nElement_loop.simps [simp del]

section \<open>Notions used in the statements\<close>

text \<open>
  The effective dimensionality of a request, well-formedness of a view (its arrays hold
  at least \<open>nDimension\<close> entries), the no-op test of \<open>THCTensor_resizeNd\<close> in closed
  form, and the example heaps the concrete evaluations run on.
\<close>

definition leading_positive :: "int \<Rightarrow> int list \<Rightarrow> nat" where
  "leading_positive nDim sz = length (takeWhile (\<lambda>x. 0 < x) (take (nat nDim) sz))"

definition tensor_wf :: "THCTensor \<Rightarrow> bool" where
  "tensor_wf t \<longleftrightarrow>
     0 \<le> nDimension t \<and> nat (nDimension t) \<le> length (size_arr t)
     \<and> nat (nDimension t) \<le> length (stride_arr t)"

definition matches_at :: "THCTensor \<Rightarrow> int list \<Rightarrow> int list option \<Rightarrow> nat \<Rightarrow> bool" where
  "matches_at self sz st d \<longleftrightarrow>
     \<not> (nDimension self > int d \<and> sz ! d \<noteq> size_arr self ! d)
     \<and> \<not> (nDimension self > int d
           \<and> (case st of None \<Rightarrow> False
               | Some str \<Rightarrow> str ! d \<ge> 0 \<and> str ! d \<noteq> stride_arr self ! d))"

definition suffix_prod :: "int list \<Rightarrow> nat \<Rightarrow> nat \<Rightarrow> int" where
  "suffix_prod sz n j = (\<Prod>i = j..<n. sz ! i)"

definition resize_target :: "THCTensor \<Rightarrow> nat \<Rightarrow> THCTensor" where
  "resize_target t n =
     (if int n \<noteq> nDimension t
      then t\<lparr>nDimension := int n,
             size_arr := THRealloc (size_arr t) n,
             stride_arr := THRealloc (stride_arr t) n\<rparr>
      else t)"

definition resize_noop :: "THCTensor \<Rightarrow> int \<Rightarrow> int list \<Rightarrow> int list option \<Rightarrow> bool" where
  "resize_noop t nDim sz st \<longleftrightarrow>
     (\<forall>j < leading_positive nDim sz. matches_at t sz st j)
     \<and> int (leading_positive nDim sz) = nDimension t"

definition no_memory :: "int \<Rightarrow> bool" where
  "no_memory n = False"

definition enough_memory :: "int \<Rightarrow> bool" where
  "enough_memory n = True"

text \<open>
  Modelled from the spec: the function that creates a view is not among the sources;
  section 3 of the specification: "a View is created with n = 0 and no Storage".
\<close>

definition new_view :: THCTensor where
  "new_view = \<lparr>nDimension = 0, size_arr = [], stride_arr = [], storage = None,
                storageOffset = 0\<rparr>"

definition ex_heap :: heap where
  "ex_heap = \<lparr>tensors = [2 \<mapsto> new_view, 3 \<mapsto> new_view\<lparr>storage := Some 7\<rparr>],
              storages = [7 \<mapsto> \<lparr>size_st = 0, scalar_type = 0, refcount_st = 1\<rparr>],
              next_storage = 8\<rparr>"

definition view_ok :: "THCTensor \<Rightarrow> bool" where
  "view_ok t \<longleftrightarrow>
     tensor_wf t
     \<and> (\<forall>d \<in> {0..<nat (nDimension t)}. 0 < size_arr t ! d \<and> 0 \<le> stride_arr t ! d)"

definition heap_ok :: "heap \<Rightarrow> bool" where
  "heap_ok h \<longleftrightarrow> (\<forall>p t. tensors h p = Some t \<longrightarrow> view_ok t)"

text \<open>
  The errors a caller can observe and continue after: failed argument checks,
  \<open>THError\<close> and allocation failures. \<open>leaves r h'\<close>: the call with outcome \<open>r\<close>
  returned, or raised such an error, and left the heap \<open>h'\<close>.
\<close>

fun recoverable :: "error \<Rightarrow> bool" where
  "recoverable (ArgError n msg) = True"
| "recoverable (THError msg) = True"
| "recoverable AllocationError = True"
| "recoverable InvalidView = False"
| "recoverable NullDeref = False"
| "recoverable UseAfterFree = False"
| "recoverable OutOfBounds = False"
| "recoverable SignedOverflow = False"

definition leaves :: "result \<Rightarrow> heap \<Rightarrow> bool" where
  "leaves r h' = (case r of Inr h \<Rightarrow> h = h' | Inl (e, h) \<Rightarrow> recoverable e \<and> h = h')"

text \<open>
  The heaps built through the public operations: a heap whose views all have
  dimensionality 0 (section 3 of the specification: "a View is created with n = 0 and no
  Storage"), a further view created in it, and every heap that one of the shape-mutating
  operations leaves. The arrays passed to \<open>THCTensor_resizeNd\<close> and
  \<open>THCTensor_setStorageNd\<close> hold at least \<open>nDimension\<close> entries.
\<close>

inductive built :: "heap \<Rightarrow> bool" where
  fresh: "(\<forall>p t. tensors h p = Some t \<longrightarrow> nDimension t = 0) \<Longrightarrow> built h"
| create: "built h \<Longrightarrow> tensors h p = None \<Longrightarrow> built (set_tensor h p new_view)"
| resizeNd: "built h \<Longrightarrow> nat nDim \<le> length sz
     \<Longrightarrow> leaves (THCTensor_resizeNd alloc h self nDim sz st) h' \<Longrightarrow> built h'"
| resize: "built h \<Longrightarrow> leaves (THCTensor_resize alloc h self size_opt stride_opt) h'
     \<Longrightarrow> built h'"
| resizeAs: "built h \<Longrightarrow> leaves (THCTensor_resizeAs alloc h self src) h' \<Longrightarrow> built h'"
| setStorageNd: "built h \<Longrightarrow> nat nDim \<le> length sz
     \<Longrightarrow> leaves (THCTensor_setStorageNd alloc h self stg off nDim sz st) h' \<Longrightarrow> built h'"
| set: "built h \<Longrightarrow> leaves (THCTensor_set alloc h self src) h' \<Longrightarrow> built h'"
| squeeze1d: "built h \<Longrightarrow> leaves (THCTensor_squeeze1d alloc h self src_opt dimension) h'
     \<Longrightarrow> built h'"
| unsqueeze1d: "built h \<Longrightarrow> leaves (THCTensor_unsqueeze1d alloc h self src_opt dimension) h'
     \<Longrightarrow> built h'"

definition products_fit :: "THCTensor \<Rightarrow> bool" where
  "products_fit t \<longleftrightarrow>
     (\<forall>k \<in> {0..nat (nDimension t)}. int64_ok (\<Prod>d = 0..<k. size_arr t ! d))"

definition view_transposed :: THCTensor where
  "view_transposed = \<lparr>nDimension = 2, size_arr = [4, 3], stride_arr = [1, 4],
                        storage = Some 7, storageOffset = 0\<rparr>"

definition transposed_heap :: heap where
  "transposed_heap = \<lparr>tensors = [2 \<mapsto> new_view, 3 \<mapsto> view_transposed],
              storages = [7 \<mapsto> \<lparr>size_st = 12, scalar_type = 0, refcount_st = 1\<rparr>],
              next_storage = 8\<rparr>"

text \<open>
  A view of \<open>2^32 \<times> 2^32\<close> elements on one stored element (both strides 0), and the
  heap that resizing view 3 of \<open>ex_heap\<close> to it leaves.
\<close>

definition view_big :: THCTensor where
  "view_big = \<lparr>nDimension = 2, size_arr = [4294967296, 4294967296], stride_arr = [0, 0],
                 storage = Some 7, storageOffset = 0\<rparr>"

definition big_heap :: heap where
  "big_heap = \<lparr>tensors = [2 \<mapsto> new_view, 3 \<mapsto> view_big],
              storages = [7 \<mapsto> \<lparr>size_st = 1, scalar_type = 0, refcount_st = 1\<rparr>],
              next_storage = 8\<rparr>"

definition view_4_3 :: THCTensor where
  "view_4_3 = \<lparr>nDimension = 2, size_arr = [4, 3], stride_arr = [3, 1], storage = Some 7,
                 storageOffset = 0\<rparr>"

definition view_4_1_3 :: THCTensor where
  "view_4_1_3 = \<lparr>nDimension = 3, size_arr = [4, 1, 3], stride_arr = [3, 7, 1],
                   storage = Some 7, storageOffset = 0\<rparr>"

definition strided_heap :: heap where
  "strided_heap = \<lparr>tensors = [3 \<mapsto> view_4_1_3],
              storages = [7 \<mapsto> \<lparr>size_st = 12, scalar_type = 0, refcount_st = 1\<rparr>],
              next_storage = 8\<rparr>"

definition squeezed_heap :: heap where
  "squeezed_heap = \<lparr>tensors = [3 \<mapsto> \<lparr>nDimension = 2, size_arr = [4, 3, 3],
                                     stride_arr = [3, 1, 1], storage = Some 7,
                                     storageOffset = 0\<rparr>],
              storages = [7 \<mapsto> \<lparr>size_st = 12, scalar_type = 0, refcount_st = 1\<rparr>],
              next_storage = 8\<rparr>"

definition unsqueezed_heap :: heap where
  "unsqueezed_heap = \<lparr>tensors = [3 \<mapsto> \<lparr>nDimension = 3, size_arr = [4, 1, 3],
                                     stride_arr = [3, 3, 1], storage = Some 7,
                                     storageOffset = 0\<rparr>],
              storages = [7 \<mapsto> \<lparr>size_st = 12, scalar_type = 0, refcount_st = 1\<rparr>],
              next_storage = 8\<rparr>"

definition resized_heap :: heap where
  "resized_heap = \<lparr>tensors = [2 \<mapsto> new_view, 3 \<mapsto> view_4_3],
              storages = [7 \<mapsto> \<lparr>size_st = 12, scalar_type = 0, refcount_st = 1\<rparr>],
              next_storage = 8\<rparr>"

definition shared_heap :: heap where
  "shared_heap = \<lparr>tensors = [2 \<mapsto> new_view, 3 \<mapsto> view_4_3, 4 \<mapsto> view_4_3],
              storages = [7 \<mapsto> \<lparr>size_st = 12, scalar_type = 0, refcount_st = 2\<rparr>],
              next_storage = 8\<rparr>"

section \<open>The scan of the requested sizes\<close>

lemma int_less_nat: "int d < n \<longleftrightarrow> d < nat n"
  by linarith

lemma mul64_Inr: "mul64 a b = Inr c \<Longrightarrow> c = a * b \<and> int64_ok (a * b)"
  by (auto simp: mul64_def split: if_splits)

lemma add64_Inr: "add64 a b = Inr c \<Longrightarrow> c = a + b \<and> int64_ok (a + b)"
  by (auto simp: add64_def split: if_splits)

lemma resize_scan_fst:
  "nat nDim \<le> length sz \<Longrightarrow>
   fst (resize_scan t nDim sz st d cnt hcs)
     = cnt + int (length (takeWhile (\<lambda>x. 0 < x) (drop d (take (nat nDim) sz))))"
proof (induction t nDim sz st d cnt hcs rule: resize_scan.induct)
  case (1 self nDim sz st d cnt hcs)
  show ?case
  proof (cases "int d < nDim")
    case True
    then have d: "d < length (take (nat nDim) sz)" using "1.prems" by simp
    have dr: "drop d (take (nat nDim) sz) = sz ! d # drop (Suc d) (take (nat nDim) sz)"
      using Cons_nth_drop_Suc[OF d] True by simp
    show ?thesis
    proof (cases "sz ! d > 0")
      case pos: True
      from "1.IH"[OF True pos "1.prems"] True pos dr show ?thesis
        by (subst resize_scan.simps) simp
    next
      case False
      with True dr show ?thesis by (subst resize_scan.simps) simp
    qed
  next
    case False
    then have "drop d (take (nat nDim) sz) = []" by simp
    with False show ?thesis by (subst resize_scan.simps) simp
  qed
qed

lemma resize_scan_snd:
  "nat nDim \<le> length sz \<Longrightarrow>
   snd (resize_scan t nDim sz st d cnt hcs)
     = (hcs \<and> (\<forall>j. d \<le> j \<and> j < d + length (takeWhile (\<lambda>x. 0 < x) (drop d (take (nat nDim) sz)))
                 \<longrightarrow> matches_at t sz st j))"
proof (induction t nDim sz st d cnt hcs rule: resize_scan.induct)
  case (1 self nDim sz st d cnt hcs)
  show ?case
  proof (cases "int d < nDim")
    case True
    then have d: "d < length (take (nat nDim) sz)" using "1.prems" by simp
    have dr: "drop d (take (nat nDim) sz) = sz ! d # drop (Suc d) (take (nat nDim) sz)"
      using Cons_nth_drop_Suc[OF d] True by simp
    show ?thesis
    proof (cases "sz ! d > 0")
      case pos: True
      let ?k = "length (takeWhile (\<lambda>x. 0 < x) (drop (Suc d) (take (nat nDim) sz)))"
      have split: "(\<forall>j. d \<le> j \<and> j < d + Suc ?k \<longrightarrow> matches_at self sz st j)
           \<longleftrightarrow> (matches_at self sz st d \<and> (\<forall>j. Suc d \<le> j \<and> j < Suc d + ?k \<longrightarrow> matches_at self sz st j))"
      proof -
        have "\<And>j. (d \<le> j \<and> j < d + Suc ?k) \<longleftrightarrow> (j = d \<or> (Suc d \<le> j \<and> j < Suc d + ?k))"
          by arith
        then show ?thesis by (simp only:) blast
      qed
      from "1.IH"[OF True pos "1.prems"] True pos dr split show ?thesis
        by (subst resize_scan.simps) (auto simp: matches_at_def)
    next
      case False
      with True dr show ?thesis by (subst resize_scan.simps) auto
    qed
  next
    case False
    then have "drop d (take (nat nDim) sz) = []" by simp
    with False show ?thesis by (subst resize_scan.simps) auto
  qed
qed

lemma resize_scan_eq:
  assumes "nat nDim \<le> length sz"
  shows "resize_scan t nDim sz st 0 0 True
     = (int (leading_positive nDim sz), \<forall>j < leading_positive nDim sz. matches_at t sz st j)"
  using resize_scan_fst[OF assms, of t st 0 0 True] resize_scan_snd[OF assms, of t st 0 0 True]
  by (simp add: leading_positive_def prod_eq_iff)

lemma leading_positive_le: "leading_positive nDim sz \<le> nat nDim"
proof -
  have "leading_positive nDim sz \<le> length (take (nat nDim) sz)"
    unfolding leading_positive_def by (rule length_takeWhile_le)
  then show ?thesis by simp
qed

lemma leading_positive_nth:
  assumes "j < leading_positive nDim sz"
  shows "takeWhile (\<lambda>x. 0 < x) (take (nat nDim) sz) ! j = sz ! j" and "0 < sz ! j"
proof -
  let ?xs = "take (nat nDim) sz"
  from assms have j: "j < length (takeWhile (\<lambda>x. 0 < x) ?xs)" by (simp add: leading_positive_def)
  then have "takeWhile (\<lambda>x. 0 < x) ?xs ! j = ?xs ! j" by (rule takeWhile_nth)
  moreover have "j < nat nDim" using assms leading_positive_le[of nDim sz] by simp
  ultimately show "takeWhile (\<lambda>x. 0 < x) ?xs ! j = sz ! j" by simp
  have "takeWhile (\<lambda>x. 0 < x) ?xs ! j \<in> set (takeWhile (\<lambda>x. 0 < x) ?xs)"
    using j by (rule nth_mem)
  then have "0 < takeWhile (\<lambda>x. 0 < x) ?xs ! j"
    by (rule set_takeWhileD[THEN conjunct2])
  then show "0 < sz ! j" using \<open>takeWhile (\<lambda>x. 0 < x) ?xs ! j = sz ! j\<close> by simp
qed

section \<open>The loop that writes sizes and strides\<close>

lemma nth_list_update_gen:
  "(xs[i := v]) ! j = (if i = j \<and> j < length xs then v else xs ! j)"
  by (cases "i < length xs") (auto simp: nth_list_update list_update_beyond)

lemma resize_fill_pos:
  "0 < k \<Longrightarrow> resize_fill sz st k self totalSize =
     (let self1 = self\<lparr>size_arr := (size_arr self)[k - 1 := sz ! (k - 1)]\<rparr> in
      case new_stride st self1 (k - 1) of
        Inl e \<Rightarrow> Inl (e, self1)
      | Inr s \<Rightarrow>
          (let self2 = self1\<lparr>stride_arr := (stride_arr self1)[k - 1 := s]\<rparr> in
           case mul64 (size_arr self2 ! (k - 1) - 1) (stride_arr self2 ! (k - 1)) of
             Inl e \<Rightarrow> Inl (e, self2)
           | Inr p \<Rightarrow>
               (case add64 totalSize p of
                  Inl e \<Rightarrow> Inl (e, self2)
                | Inr t \<Rightarrow> resize_fill sz st (k - 1) self2 t)))"
  by (cases k) (simp_all add: Let_def cong: sum.case_cong)

lemma replicate_pos: "0 < n \<Longrightarrow> replicate n x = x # replicate (n - 1) x"
  by (cases n) simp_all

lemma list_update_Cons_pos: "0 < i \<Longrightarrow> (x # xs)[i := v] = x # xs[i - 1 := v]"
  by (cases i) simp_all

lemmas eval_simps = resize_fill_pos replicate_pos list_update_Cons_pos

lemma contiguous_loop_pos:
  "0 < k \<Longrightarrow> contiguous_loop self k z =
     (if size_arr self ! (k - 1) \<noteq> 1 then
        (if stride_arr self ! (k - 1) = z then
           (case mul64 z (size_arr self ! (k - 1)) of
              Inl e \<Rightarrow> Inl e
            | Inr z' \<Rightarrow> contiguous_loop self (k - 1) z')
         else Inr False)
      else contiguous_loop self (k - 1) z)"
  by (cases k) (simp_all cong: sum.case_cong)

lemma resize_fill_Inr_fields:
  "resize_fill sz st k t T = Inr (t', T') \<Longrightarrow>
     nDimension t' = nDimension t \<and> storage t' = storage t \<and> storageOffset t' = storageOffset t
     \<and> length (size_arr t') = length (size_arr t) \<and> length (stride_arr t') = length (stride_arr t)"
  by (induction k arbitrary: t T) (auto simp: Let_def split: sum.splits)

lemma resize_fill_Inl_fields:
  "resize_fill sz st k t T = Inl (e, t') \<Longrightarrow>
     nDimension t' = nDimension t \<and> storage t' = storage t \<and> storageOffset t' = storageOffset t
     \<and> length (size_arr t') = length (size_arr t) \<and> length (stride_arr t') = length (stride_arr t)"
  by (induction k arbitrary: t T) (auto simp: Let_def split: sum.splits)

lemma resize_fill_size:
  "resize_fill sz st k t T = Inr (t', T') \<Longrightarrow>
     size_arr t' ! j = (if j < k \<and> j < length (size_arr t) then sz ! j else size_arr t ! j)"
proof (induction k arbitrary: t T)
  case 0
  then show ?case by simp
next
  case (Suc d)
  from Suc.prems obtain s p x where
    rec: "resize_fill sz st d (t\<lparr>size_arr := (size_arr t)[d := sz ! d],
                                 stride_arr := (stride_arr t)[d := s]\<rparr>) x = Inr (t', T')"
    by (auto simp: Let_def split: sum.splits)
  from Suc.IH[OF rec] show ?case
    by (auto simp: nth_list_update_gen less_Suc_eq)
qed

lemma resize_fill_stride_ge:
  "resize_fill sz st k t T = Inr (t', T') \<Longrightarrow> k \<le> j \<Longrightarrow> stride_arr t' ! j = stride_arr t ! j"
proof (induction k arbitrary: t T)
  case 0
  then show ?case by simp
next
  case (Suc d)
  from Suc.prems obtain s p x where
    rec: "resize_fill sz st d (t\<lparr>size_arr := (size_arr t)[d := sz ! d],
                                 stride_arr := (stride_arr t)[d := s]\<rparr>) x = Inr (t', T')"
    by (auto simp: Let_def split: sum.splits)
  from Suc.IH[OF rec] Suc.prems(2) show ?case
    by (auto simp: nth_list_update_gen)
qed

lemma resize_fill_stride_explicit:
  "resize_fill sz (Some str) k t T = Inr (t', T') \<Longrightarrow> j < k \<Longrightarrow> j < length (stride_arr t)
     \<Longrightarrow> 0 \<le> str ! j \<Longrightarrow> stride_arr t' ! j = str ! j"
proof (induction k arbitrary: t T)
  case 0
  then show ?case by simp
next
  case (Suc d)
  from Suc.prems(1) obtain s p x where
    s: "new_stride (Some str) (t\<lparr>size_arr := (size_arr t)[d := sz ! d]\<rparr>) d = Inr s" and
    rec: "resize_fill sz (Some str) d (t\<lparr>size_arr := (size_arr t)[d := sz ! d],
                                 stride_arr := (stride_arr t)[d := s]\<rparr>) x = Inr (t', T')"
    by (auto simp: Let_def split: sum.splits)
  show ?case
  proof (cases "j = d")
    case True
    with s Suc.prems have "s = str ! j" by (simp add: new_stride_def)
    moreover have "stride_arr t' ! j = (stride_arr t)[d := s] ! j"
      using resize_fill_stride_ge[OF rec, of j] True by simp
    ultimately show ?thesis using True Suc.prems by simp
  next
    case False
    with Suc.prems have "j < d" by simp
    from Suc.IH[OF rec this] Suc.prems show ?thesis by simp
  qed
qed

lemma suffix_prod_step: "d < n \<Longrightarrow> suffix_prod sz n d = sz ! d * suffix_prod sz n (Suc d)"
  by (simp add: suffix_prod_def prod.atLeast_Suc_lessThan)

lemma suffix_prod_end [simp]: "suffix_prod sz n n = 1"
  by (simp add: suffix_prod_def)

lemma resize_fill_default:
  assumes "resize_fill sz None k t T = Inr (t', T')"
    and "k \<le> n" and "int n = nDimension t"
    and "n \<le> length (size_arr t)" and "n \<le> length (stride_arr t)"
    and "\<forall>j. k \<le> j \<and> j < n \<longrightarrow> stride_arr t ! j = suffix_prod sz n (Suc j)"
    and "\<forall>j. k \<le> j \<and> j < n \<longrightarrow> size_arr t ! j = sz ! j"
    and "T = suffix_prod sz n k"
  shows "(\<forall>j < n. stride_arr t' ! j = suffix_prod sz n (Suc j))
       \<and> (\<forall>j < k. int64_ok (suffix_prod sz n j)) \<and> T' = suffix_prod sz n 0"
  using assms
proof (induction k arbitrary: t T)
  case 0
  then show ?case by simp
next
  case (Suc d)
  let ?t1 = "t\<lparr>size_arr := (size_arr t)[d := sz ! d]\<rparr>"
  from Suc.prems(1) obtain s p x where
    s: "default_stride ?t1 d = Inr s" and
    p: "mul64 (sz ! d - 1) s = Inr p" and
    x: "add64 T p = Inr x" and
    rec: "resize_fill sz None d (t\<lparr>size_arr := (size_arr t)[d := sz ! d],
                                 stride_arr := (stride_arr t)[d := s]\<rparr>) x = Inr (t', T')"
    using Suc.prems(2,4,5)
    by (auto simp: Let_def new_stride_def split: sum.splits)
  have dn: "d < n" using Suc.prems(2) by simp
  have s_eq: "s = suffix_prod sz n (Suc d)"
  proof (cases "Suc d = n")
    case True
    with s Suc.prems(3) show ?thesis by (auto simp: default_stride_def) 
  next
    case False
    with dn have d1: "Suc d < n" by simp
    with Suc.prems(3) have "int d \<noteq> nDimension t - 1" by linarith
    with s have "mul64 (size_arr ?t1 ! (d + 1)) (stride_arr ?t1 ! (d + 1)) = Inr s"
      by (simp add: default_stride_def)
    then have "s = size_arr t ! Suc d * stride_arr t ! Suc d"
      by (auto dest: mul64_Inr)
    with Suc.prems(6,7) d1 show ?thesis
      by (simp add: suffix_prod_step[OF d1])
  qed
  have x_eq: "x = suffix_prod sz n d" and x_ok: "int64_ok (suffix_prod sz n d)"
  proof -
    from p have "p = (sz ! d - 1) * s" by (simp add: mul64_Inr)
    moreover from x have "x = T + p" "int64_ok (T + p)" by (simp_all add: add64_Inr)
    ultimately have "x = sz ! d * suffix_prod sz n (Suc d)" "int64_ok (sz ! d * suffix_prod sz n (Suc d))"
      using s_eq Suc.prems(8) by (simp_all add: algebra_simps)
    then show "x = suffix_prod sz n d" "int64_ok (suffix_prod sz n d)"
      by (simp_all add: suffix_prod_step[OF dn])
  qed
  have "(\<forall>j < n. stride_arr t' ! j = suffix_prod sz n (Suc j))
       \<and> (\<forall>j < d. int64_ok (suffix_prod sz n j)) \<and> T' = suffix_prod sz n 0"
  proof (rule Suc.IH[OF rec])
    show "d \<le> n" using dn by simp
    show "int n = nDimension (t\<lparr>size_arr := (size_arr t)[d := sz ! d], stride_arr := (stride_arr t)[d := s]\<rparr>)"
      using Suc.prems(3) by simp
    show "n \<le> length (size_arr (t\<lparr>size_arr := (size_arr t)[d := sz ! d], stride_arr := (stride_arr t)[d := s]\<rparr>))"
      using Suc.prems(4) by simp
    show "n \<le> length (stride_arr (t\<lparr>size_arr := (size_arr t)[d := sz ! d], stride_arr := (stride_arr t)[d := s]\<rparr>))"
      using Suc.prems(5) by simp
    show "\<forall>j. d \<le> j \<and> j < n \<longrightarrow> stride_arr (t\<lparr>size_arr := (size_arr t)[d := sz ! d], stride_arr := (stride_arr t)[d := s]\<rparr>) ! j = suffix_prod sz n (Suc j)"
      using Suc.prems(5,6) s_eq dn by (auto simp: nth_list_update)
    show "\<forall>j. d \<le> j \<and> j < n \<longrightarrow> size_arr (t\<lparr>size_arr := (size_arr t)[d := sz ! d], stride_arr := (stride_arr t)[d := s]\<rparr>) ! j = sz ! j"
      using Suc.prems(4,7) dn by (auto simp: nth_list_update)
    show "x = suffix_prod sz n d" by (rule x_eq)
  qed
  with x_ok show ?case by (auto simp: less_Suc_eq)
qed

lemma contiguous_loop_default:
  assumes "\<forall>j < n. size_arr t ! j = sz ! j" 
    and "\<forall>j < n. stride_arr t ! j = suffix_prod sz n (Suc j)"
    and "\<forall>j < n. int64_ok (suffix_prod sz n j)"
    and "k \<le> n"
  shows "contiguous_loop t k (suffix_prod sz n k) = Inr True"
  using assms(4)
proof (induction k)
  case 0
  then show ?case by simp
next
  case (Suc d)
  then have dn: "d < n" by simp
  have sz: "size_arr t ! d = sz ! d" and str: "stride_arr t ! d = suffix_prod sz n (Suc d)"
    and ok: "int64_ok (suffix_prod sz n d)"
    using assms(1-3) dn by simp_all
  from Suc.IH dn have IH: "contiguous_loop t d (suffix_prod sz n d) = Inr True" by simp
  show ?case
  proof (cases "sz ! d = 1")
    case True
    then have "suffix_prod sz n d = suffix_prod sz n (Suc d)" by (simp add: suffix_prod_step[OF dn])
    with IH True sz show ?thesis by simp
  next
    case False
    have "mul64 (suffix_prod sz n (Suc d)) (sz ! d) = Inr (suffix_prod sz n d)"
      using ok by (simp add: mul64_def suffix_prod_step[OF dn] mult.commute)
    with IH False sz str show ?thesis by simp
  qed
qed

section \<open>What a resize leaves in the heap\<close>

lemma resize_storage_Inl: "resize_storage alloc h self t need = Inl (e, h') \<Longrightarrow> h' = h"
  by (auto simp: resize_storage_def read_scalar_type_def THCStorage_resize_def
           split: if_splits option.splits sum.splits)

lemma resize_storage_Inr:
  "resize_storage alloc h self t need = Inr h' \<Longrightarrow>
     tensors h' = tensors h \<and> next_storage h' = next_storage h"
  by (auto simp: resize_storage_def read_scalar_type_def THCStorage_resize_def
           split: if_splits option.splits sum.splits)

lemma resize_storage_no_storage:
  "storage t = None \<Longrightarrow> 0 < need \<Longrightarrow> resize_storage alloc h self t need = Inl (NullDeref, h)"
  by (simp add: resize_storage_def read_scalar_type_def)

lemma resize_fill_Inl_error: "resize_fill sz st k t T = Inl (e, t') \<Longrightarrow> e = SignedOverflow"
  by (induction k arbitrary: t T)
     (auto simp: Let_def new_stride_def default_stride_def mul64_def add64_def
           split: sum.splits if_splits option.splits)

lemma resizeNd_unfold:
  assumes "tensors h self = Some t" and "nat nDim \<le> length sz"
  shows "THCTensor_resizeNd alloc h self nDim sz st =
     (if resize_noop t nDim sz st then Inr h
      else if 0 < leading_positive nDim sz then
        (case resize_fill sz st (leading_positive nDim sz)
                (resize_target t (leading_positive nDim sz)) 1 of
           Inl (e, t2) \<Rightarrow> Inl (e, set_tensor h self t2)
         | Inr (t2, totalSize) \<Rightarrow>
             (case add64 totalSize (storageOffset t2) of
                Inl e \<Rightarrow> Inl (e, set_tensor h self t2)
              | Inr need \<Rightarrow> resize_storage alloc (set_tensor h self t2) self t2 need))
      else Inr (set_tensor h self (t\<lparr>nDimension := 0\<rparr>)))"
proof -
  have "nDimension (resize_target t (leading_positive nDim sz)) = int (leading_positive nDim sz)"
    by (simp add: resize_target_def)
  then show ?thesis
    using assms
    by (simp add: THCTensor_resizeNd_def resize_scan_eq resize_noop_def resize_target_def
             cong: if_cong)
qed

lemma resize_target_fields:
  "nDimension (resize_target t n) = int n"
  "storage (resize_target t n) = storage t"
  "storageOffset (resize_target t n) = storageOffset t"
  by (simp_all add: resize_target_def)

lemma resize_target_length:
  assumes "tensor_wf t"
  shows "n \<le> length (size_arr (resize_target t n))" "n \<le> length (stride_arr (resize_target t n))"
  using assms by (auto simp: resize_target_def tensor_wf_def THRealloc_def)

lemma set_tensor_simps [simp]:
  "tensors (set_tensor h p t) = (tensors h)(p \<mapsto> t)"
  "storages (set_tensor h p t) = storages h"
  "next_storage (set_tensor h p t) = next_storage h"
  by (simp_all add: set_tensor_def)

text \<open>What a normal return of \<open>THCTensor_resizeNd\<close> leaves in the view.\<close>

lemma resizeNd_Inr_view:
  assumes t: "tensors h self = Some t" and wf: "tensor_wf t" and len: "nat nDim \<le> length sz"
    and r: "THCTensor_resizeNd alloc h self nDim sz st = Inr h'"
  shows "\<exists>t'. tensors h' self = Some t' \<and> (\<forall>p. p \<noteq> self \<longrightarrow> tensors h' p = tensors h p)
     \<and> nDimension t' = int (leading_positive nDim sz) \<and> tensor_wf t'
     \<and> storage t' = storage t \<and> storageOffset t' = storageOffset t
     \<and> (\<forall>j < leading_positive nDim sz. size_arr t' ! j = sz ! j)
     \<and> (\<forall>str j. st = Some str \<longrightarrow> j < leading_positive nDim sz \<longrightarrow> 0 \<le> str ! j
           \<longrightarrow> stride_arr t' ! j = str ! j)"
proof -
  let ?n = "leading_positive nDim sz"
  note unf = resizeNd_unfold[OF t len, of alloc st]
  show ?thesis
  proof (cases "resize_noop t nDim sz st")
    case True
    with r unf have h': "h' = h" by simp
    from True have m: "\<forall>j < ?n. matches_at t sz st j" and n: "int ?n = nDimension t"
      by (simp_all add: resize_noop_def)
    have "\<forall>j < ?n. size_arr t ! j = sz ! j"
      using m n by (auto simp: matches_at_def)
    moreover have "\<forall>str j. st = Some str \<longrightarrow> j < ?n \<longrightarrow> 0 \<le> str ! j \<longrightarrow> stride_arr t ! j = str ! j"
      using m n by (auto simp: matches_at_def)
    ultimately show ?thesis using t wf n h' by auto
  next
    case noop: False
    show ?thesis
    proof (cases "0 < ?n")
      case False
      with r unf noop have h': "h' = set_tensor h self (t\<lparr>nDimension := 0\<rparr>)" by simp
      have "tensor_wf (t\<lparr>nDimension := 0\<rparr>)" by (simp add: tensor_wf_def)
      with h' False show ?thesis by auto
    next
      case True
      let ?t1 = "resize_target t ?n"
      from r unf noop True obtain t2 T need where
        fill: "resize_fill sz st ?n ?t1 1 = Inr (t2, T)" and
        stor: "resize_storage alloc (set_tensor h self t2) self t2 need = Inr h'"
        by (auto split: sum.splits prod.splits)
      note f = resize_fill_Inr_fields[OF fill]
      note l = resize_target_length[OF wf, of ?n]
      have tens: "tensors h' = (tensors h)(self \<mapsto> t2)"
        using resize_storage_Inr[OF stor] by simp
      have wf2: "tensor_wf t2"
        using f l by (simp add: tensor_wf_def resize_target_fields)
      have sz2: "\<forall>j < ?n. size_arr t2 ! j = sz ! j"
        using resize_fill_size[OF fill] l by auto
      have st2: "\<forall>str j. st = Some str \<longrightarrow> j < ?n \<longrightarrow> 0 \<le> str ! j \<longrightarrow> stride_arr t2 ! j = str ! j"
      proof (intro allI impI)
        fix str j assume a: "st = Some str" "j < ?n" "0 \<le> str ! j"
        from fill a(1) have f1: "resize_fill sz (Some str) ?n ?t1 1 = Inr (t2, T)" by simp
        have f2: "j < length (stride_arr ?t1)" using a(2) l(2) by simp
        show "stride_arr t2 ! j = str ! j"
          by (rule resize_fill_stride_explicit[OF f1 a(2) f2 a(3)])
      qed
      show ?thesis
        using tens wf2 sz2 st2 f by (simp add: resize_target_fields)
    qed
  qed
qed

section \<open>Effective dimensionality\<close>

lemma resizeNd_Inl_view:
  assumes t: "tensors h self = Some t" and len: "nat nDim \<le> length sz"
    and r: "THCTensor_resizeNd alloc h self nDim sz st = Inl (e, h')"
  shows "\<not> resize_noop t nDim sz st \<and> storages h' = storages h
     \<and> (\<exists>t'. h' = set_tensor h self t' \<and> nDimension t' = int (leading_positive nDim sz)
           \<and> storage t' = storage t \<and> storageOffset t' = storageOffset t
           \<and> (e \<noteq> SignedOverflow \<longrightarrow>
                (\<exists>T. resize_fill sz st (leading_positive nDim sz)
                        (resize_target t (leading_positive nDim sz)) 1 = Inr (t', T))))"
proof -
  let ?n = "leading_positive nDim sz"
  let ?t1 = "resize_target t ?n"
  note unf = resizeNd_unfold[OF t len, of alloc st]
  from r unf have noop: "\<not> resize_noop t nDim sz st" by (auto split: if_splits)
  from r unf noop have pos: "0 < ?n" by (auto split: if_splits)
  show ?thesis
  proof (cases "resize_fill sz st ?n ?t1 1")
    case (Inl a)
    obtain e1 t2 where a: "a = (e1, t2)" by (cases a)
    with Inl r unf noop pos have "e = e1" "h' = set_tensor h self t2" by simp_all
    moreover have "e1 = SignedOverflow" using Inl a by (auto dest: resize_fill_Inl_error)
    moreover note resize_fill_Inl_fields[OF Inl[unfolded a]]
    ultimately show ?thesis using noop by (auto simp: resize_target_fields)
  next
    case (Inr b)
    obtain t2 T where b: "b = (t2, T)" by (cases b)
    note f = resize_fill_Inr_fields[OF Inr[unfolded b]]
    show ?thesis
    proof (cases "add64 T (storageOffset t2)")
      case (Inl e1)
      with Inr b r unf noop pos have "e = e1" "h' = set_tensor h self t2" by simp_all
      moreover have "e1 = SignedOverflow" using Inl by (auto simp: add64_def split: if_splits)
      ultimately show ?thesis using noop f by (auto simp: resize_target_fields)
    next
      case need: (Inr need)
      with Inr b r unf noop pos
      have "resize_storage alloc (set_tensor h self t2) self t2 need = Inl (e, h')" by simp
      then have "h' = set_tensor h self t2" by (rule resize_storage_Inl)
      then show ?thesis using noop f Inr b by (auto simp: resize_target_fields)
    qed
  qed
qed

text \<open>
  Claim C3. After \<open>THCTensor_resizeNd\<close> the view's dimensionality is the number of
  leading strictly positive entries of the requested sizes, whether the call returns or
  raises; when it returns, the view's size array is exactly those leading entries. For the
  request \<open>[5, 0, 2]\<close> that is dimensionality 1 and size array \<open>[5]\<close>.
\<close>

theorem resizeNd_dimensionality:
  assumes t: "tensors h self = Some t" and wf: "tensor_wf t" and len: "nat nDim \<le> length sz"
  shows "\<exists>t'. tensors (heap_of (THCTensor_resizeNd alloc h self nDim sz st)) self = Some t'
     \<and> nDimension t' = int (leading_positive nDim sz)
     \<and> (\<forall>h'. THCTensor_resizeNd alloc h self nDim sz st = Inr h' \<longrightarrow>
          take (leading_positive nDim sz) (size_arr t')
            = takeWhile (\<lambda>x. 0 < x) (take (nat nDim) sz))"
proof (cases "THCTensor_resizeNd alloc h self nDim sz st")
  case (Inl a)
  obtain e h' where a: "a = (e, h')" by (cases a)
  from resizeNd_Inl_view[OF t len Inl[unfolded a]] Inl a show ?thesis
    by (auto simp: heap_of_def)
next
  case (Inr h')
  let ?n = "leading_positive nDim sz"
  from resizeNd_Inr_view[OF t wf len Inr] obtain t' where
    t': "tensors h' self = Some t'" and n: "nDimension t' = int ?n" and wf': "tensor_wf t'"
    and sz: "\<forall>j < ?n. size_arr t' ! j = sz ! j"
    by blast
  have "take ?n (size_arr t') = takeWhile (\<lambda>x. 0 < x) (take (nat nDim) sz)"
  proof (rule nth_equalityI)
    show "length (take ?n (size_arr t')) = length (takeWhile (\<lambda>x. 0 < x) (take (nat nDim) sz))"
      using wf' n by (simp add: tensor_wf_def leading_positive_def)
  next
    fix i assume "i < length (take ?n (size_arr t'))"
    then have i: "i < ?n" by simp
    then show "take ?n (size_arr t') ! i = takeWhile (\<lambda>x. 0 < x) (take (nat nDim) sz) ! i"
      using sz leading_positive_nth(1)[OF i] by simp
  qed
  with t' n Inr show ?thesis by (simp add: heap_of_def)
qed

lemma tensor_wf_ex: "tensor_wf (new_view\<lparr>storage := Some 7\<rparr>)"
  by (simp add: tensor_wf_def new_view_def)

lemma resizeNd_ex_502:
  "THCTensor_resizeNd enough_memory ex_heap 3 3 [5, 0, 2] None =
     Inr (ex_heap\<lparr>tensors := (tensors ex_heap)(3 \<mapsto>
            \<lparr>nDimension = 1, size_arr = [5], stride_arr = [1], storage = Some 7,
               storageOffset = 0\<rparr>),
          storages := [7 \<mapsto> \<lparr>size_st = 5, scalar_type = 0, refcount_st = 1\<rparr>]\<rparr>)"
  by (simp add: THCTensor_resizeNd_def ex_heap_def new_view_def resize_scan.simps
      THRealloc_def new_stride_def default_stride_def mul64_def add64_def int64_ok_def
      eval_simps resize_storage_def THCStorage_resize_def enough_memory_def set_tensor_def)

section \<open>Repeated resize and failed growth\<close>

theorem resizeNd_dimensionality_witness:
  "tensors ex_heap 3 = Some (new_view\<lparr>storage := Some 7\<rparr>)
   \<and> tensor_wf (new_view\<lparr>storage := Some 7\<rparr>) \<and> nat 3 \<le> length [5, 0, 2 :: int]
   \<and> (\<exists>t'. tensors (heap_of (THCTensor_resizeNd enough_memory ex_heap 3 3 [5, 0, 2] None)) 3
              = Some t'
          \<and> nDimension t' = 1 \<and> take 1 (size_arr t') = [5])"
proof -
  have a: "tensors ex_heap 3 = Some (new_view\<lparr>storage := Some 7\<rparr>)"
    by (simp add: ex_heap_def)
  have b: "nat 3 \<le> length [5, 0, 2 :: int]" by simp
  have c: "leading_positive 3 [5, 0, 2] = 1" by (simp add: leading_positive_def)
  have d: "THCTensor_resizeNd enough_memory ex_heap 3 3 [5, 0, 2] None
            = Inr (heap_of (THCTensor_resizeNd enough_memory ex_heap 3 3 [5, 0, 2] None))"
    by (simp add: resizeNd_ex_502 heap_of_def)
  from resizeNd_dimensionality[OF a tensor_wf_ex b, of enough_memory None] c d
  show ?thesis using a tensor_wf_ex by (auto simp: numeral_3_eq_3)
qed

text \<open>
  Claim C6. When \<open>THCTensor_resizeNd\<close> has returned, a second call with the same
  arguments returns with the heap exactly as the first call left it: the view's sizes and
  strides, every storage capacity and everything else are unchanged, whatever the
  allocation backend would answer.
\<close>

theorem resizeNd_twice:
  assumes t: "tensors h self = Some t" and wf: "tensor_wf t" and len: "nat nDim \<le> length sz"
    and r: "THCTensor_resizeNd alloc h self nDim sz st = Inr h1"
  shows "THCTensor_resizeNd alloc' h1 self nDim sz st = Inr h1"
proof -
  let ?n = "leading_positive nDim sz"
  from resizeNd_Inr_view[OF t wf len r] obtain t1 where
    t1: "tensors h1 self = Some t1" and n: "nDimension t1 = int ?n"
    and sz: "\<forall>j < ?n. size_arr t1 ! j = sz ! j"
    and str: "\<forall>str j. st = Some str \<longrightarrow> j < ?n \<longrightarrow> 0 \<le> str ! j \<longrightarrow> stride_arr t1 ! j = str ! j"
    by blast
  have "resize_noop t1 nDim sz st"
    unfolding resize_noop_def matches_at_def using n sz str
    by (auto split: option.splits)
  then show ?thesis by (simp add: resizeNd_unfold[OF t1 len])
qed

lemma resizeNd_ex_43:
  "THCTensor_resizeNd enough_memory ex_heap 3 2 [4, 3] None =
     Inr (ex_heap\<lparr>tensors := (tensors ex_heap)(3 \<mapsto>
            \<lparr>nDimension = 2, size_arr = [4, 3], stride_arr = [3, 1], storage = Some 7,
               storageOffset = 0\<rparr>),
          storages := [7 \<mapsto> \<lparr>size_st = 12, scalar_type = 0, refcount_st = 1\<rparr>]\<rparr>)"
  by (simp add: THCTensor_resizeNd_def ex_heap_def new_view_def resize_scan.simps
      THRealloc_def new_stride_def default_stride_def mul64_def add64_def int64_ok_def
      eval_simps resize_storage_def THCStorage_resize_def enough_memory_def set_tensor_def)

theorem resizeNd_twice_witness:
  "tensors ex_heap 3 = Some (new_view\<lparr>storage := Some 7\<rparr>)
   \<and> tensor_wf (new_view\<lparr>storage := Some 7\<rparr>) \<and> nat 2 \<le> length [4, 3 :: int]
   \<and> THCTensor_resizeNd enough_memory ex_heap 3 2 [4, 3] None
        = Inr (heap_of (THCTensor_resizeNd enough_memory ex_heap 3 2 [4, 3] None))
   \<and> THCTensor_resizeNd no_memory
        (heap_of (THCTensor_resizeNd enough_memory ex_heap 3 2 [4, 3] None)) 3 2 [4, 3] None
        = Inr (heap_of (THCTensor_resizeNd enough_memory ex_heap 3 2 [4, 3] None))"
proof -
  have a: "tensors ex_heap 3 = Some (new_view\<lparr>storage := Some 7\<rparr>)"
    by (simp add: ex_heap_def)
  have b: "nat 2 \<le> length [4, 3 :: int]" by simp
  have d: "THCTensor_resizeNd enough_memory ex_heap 3 2 [4, 3] None
            = Inr (heap_of (THCTensor_resizeNd enough_memory ex_heap 3 2 [4, 3] None))"
    by (simp add: resizeNd_ex_43 heap_of_def)
  from resizeNd_twice[OF a tensor_wf_ex b d, of no_memory] a b d tensor_wf_ex
  show ?thesis by blast
qed

text \<open>
  Claim C1, as amended. When the grow request of \<open>THCTensor_resizeNd\<close> fails, the
  allocation error reaches the caller, no storage has changed and no other view has
  changed, but the view itself already holds the new geometry (dimensionality, sizes,
  explicit strides) and differs from what it was before the call: lines 89-110 write the
  geometry before line 117 asks for the storage.
\<close>

theorem resizeNd_alloc_failure:
  assumes t: "tensors h self = Some t" and wf: "tensor_wf t" and len: "nat nDim \<le> length sz"
    and r: "THCTensor_resizeNd alloc h self nDim sz st = Inl (AllocationError, h')"
  shows "storages h' = storages h \<and> (\<forall>p. p \<noteq> self \<longrightarrow> tensors h' p = tensors h p)
     \<and> (\<exists>t'. tensors h' self = Some t' \<and> t' \<noteq> t
           \<and> nDimension t' = int (leading_positive nDim sz)
           \<and> (\<forall>j < leading_positive nDim sz. size_arr t' ! j = sz ! j)
           \<and> (\<forall>str j. st = Some str \<longrightarrow> j < leading_positive nDim sz \<longrightarrow> 0 \<le> str ! j
                 \<longrightarrow> stride_arr t' ! j = str ! j))"
proof -
  let ?n = "leading_positive nDim sz"
  let ?t1 = "resize_target t ?n"
  from resizeNd_Inl_view[OF t len r] obtain t' T where
    noop: "\<not> resize_noop t nDim sz st" and stor: "storages h' = storages h"
    and h': "h' = set_tensor h self t'" and n: "nDimension t' = int ?n"
    and fill: "resize_fill sz st ?n ?t1 1 = Inr (t', T)"
    by auto
  note l = resize_target_length[OF wf, of ?n]
  have sz: "\<forall>j < ?n. size_arr t' ! j = sz ! j"
    using resize_fill_size[OF fill] l by auto
  have str: "\<forall>str j. st = Some str \<longrightarrow> j < ?n \<longrightarrow> 0 \<le> str ! j \<longrightarrow> stride_arr t' ! j = str ! j"
  proof (intro allI impI)
    fix str j assume a: "st = Some str" "j < ?n" "0 \<le> str ! j"
    from fill a(1) have f1: "resize_fill sz (Some str) ?n ?t1 1 = Inr (t', T)" by simp
    have f2: "j < length (stride_arr ?t1)" using a(2) l(2) by simp
    show "stride_arr t' ! j = str ! j"
      by (rule resize_fill_stride_explicit[OF f1 a(2) f2 a(3)])
  qed
  have ne: "t' \<noteq> t"
  proof
    assume eq: "t' = t"
    with n sz str have "resize_noop t nDim sz st"
      unfolding resize_noop_def matches_at_def by (auto split: option.splits)
    with noop show False by simp
  qed
  show ?thesis using stor h' n sz str ne by simp
qed

lemma tensors_ex_heap_3: "tensors ex_heap 3 = Some (new_view\<lparr>storage := Some 7\<rparr>)"
  by (simp add: ex_heap_def)

lemma resizeNd_ex_43_fail:
  "THCTensor_resizeNd no_memory ex_heap 3 2 [4, 3] None =
     Inl (AllocationError, set_tensor ex_heap 3
            \<lparr>nDimension = 2, size_arr = [4, 3], stride_arr = [3, 1], storage = Some 7,
               storageOffset = 0\<rparr>)"
  by (simp add: THCTensor_resizeNd_def ex_heap_def new_view_def resize_scan.simps
      THRealloc_def new_stride_def default_stride_def mul64_def add64_def int64_ok_def
      eval_simps resize_storage_def THCStorage_resize_def no_memory_def set_tensor_def)

text \<open>
  Claim C1 as stated fails: a rank-0 view on an empty storage, resized to \<open>[4, 3]\<close>
  while the backend has no memory, raises the allocation error and is left with sizes
  \<open>[4, 3]\<close> and strides \<open>[3, 1]\<close>.
\<close>

theorem resizeNd_alloc_failure_counterexample:
  "THCTensor_resizeNd no_memory ex_heap 3 2 [4, 3] None =
     Inl (AllocationError, set_tensor ex_heap 3
            \<lparr>nDimension = 2, size_arr = [4, 3], stride_arr = [3, 1], storage = Some 7,
               storageOffset = 0\<rparr>)
   \<and> tensors ex_heap 3
       = Some \<lparr>nDimension = 0, size_arr = [], stride_arr = [], storage = Some 7,
                storageOffset = 0\<rparr>
   \<and> tensors (set_tensor ex_heap 3
            \<lparr>nDimension = 2, size_arr = [4, 3], stride_arr = [3, 1], storage = Some 7,
               storageOffset = 0\<rparr>) 3
       = Some \<lparr>nDimension = 2, size_arr = [4, 3], stride_arr = [3, 1], storage = Some 7,
                storageOffset = 0\<rparr>"
  by (simp add: resizeNd_ex_43_fail) (simp add: ex_heap_def new_view_def)

theorem resizeNd_alloc_failure_witness:
  "tensors ex_heap 3 = Some (new_view\<lparr>storage := Some 7\<rparr>)
   \<and> tensor_wf (new_view\<lparr>storage := Some 7\<rparr>) \<and> nat 2 \<le> length [4, 3 :: int]
   \<and> THCTensor_resizeNd no_memory ex_heap 3 2 [4, 3] None
        = Inl (AllocationError, set_tensor ex_heap 3
            \<lparr>nDimension = 2, size_arr = [4, 3], stride_arr = [3, 1], storage = Some 7,
               storageOffset = 0\<rparr>)
   \<and> storages (set_tensor ex_heap 3
            \<lparr>nDimension = 2, size_arr = [4, 3], stride_arr = [3, 1], storage = Some 7,
               storageOffset = 0\<rparr>) = storages ex_heap"
  using resizeNd_alloc_failure[OF tensors_ex_heap_3 tensor_wf_ex _ resizeNd_ex_43_fail]
    tensors_ex_heap_3 tensor_wf_ex resizeNd_ex_43_fail
  by simp

section \<open>Element count and storage creation\<close>

lemma wrap64_id: "int64_ok x \<Longrightarrow> wrap64 x = x"
  by (simp add: wrap64_def int64_ok_def)

lemma nElement_loop_fit:
  "(\<forall>k. d \<le> k \<and> k \<le> nat (nDimension t) \<longrightarrow> int64_ok (acc * (\<Prod>j = d..<k. size_arr t ! j)))
   \<Longrightarrow> nElement_loop t d acc = acc * (\<Prod>j = d..<nat (nDimension t). size_arr t ! j)"
proof (induction t d acc rule: nElement_loop.induct)
  case (1 self d nElement)
  show ?case
  proof (cases "int d < nDimension self")
    case True
    then have dlt: "d < nat (nDimension self)" by simp
    have ok1: "int64_ok (nElement * size_arr self ! d)"
      using "1.prems"[rule_format, of "Suc d"] dlt by simp
    then have w: "wrap64 (nElement * size_arr self ! d) = nElement * size_arr self ! d"
      by (rule wrap64_id)
    have "nElement_loop self (d + 1) (wrap64 (nElement * size_arr self ! d))
        = wrap64 (nElement * size_arr self ! d)
            * (\<Prod>j = d + 1..<nat (nDimension self). size_arr self ! j)"
    proof (rule "1.IH"[OF True], intro allI impI)
      fix k assume k: "d + 1 \<le> k \<and> k \<le> nat (nDimension self)"
      then have "int64_ok (nElement * (\<Prod>j = d..<k. size_arr self ! j))"
        using "1.prems" by simp
      moreover have "(\<Prod>j = d..<k. size_arr self ! j)
          = size_arr self ! d * (\<Prod>j = d + 1..<k. size_arr self ! j)"
        using k by (simp add: prod.atLeast_Suc_lessThan)
      ultimately show "int64_ok (wrap64 (nElement * size_arr self ! d)
                          * (\<Prod>j = d + 1..<k. size_arr self ! j))"
        by (simp add: w mult.assoc)
    qed
    moreover have "(\<Prod>j = d..<nat (nDimension self). size_arr self ! j)
        = size_arr self ! d * (\<Prod>j = d + 1..<nat (nDimension self). size_arr self ! j)"
      using dlt by (simp add: prod.atLeast_Suc_lessThan)
    ultimately show ?thesis
      using True by (subst nElement_loop.simps) (simp add: w mult.assoc)
  next
    case False
    then show ?thesis by (subst nElement_loop.simps) simp
  qed
qed

lemma nElement_fit:
  assumes "products_fit t" and "nDimension t \<noteq> 0"
  shows "THCTensor_nElement t = (\<Prod>d = 0..<nat (nDimension t). size_arr t ! d)"
proof -
  have "nElement_loop t 0 1 = 1 * (\<Prod>j = 0..<nat (nDimension t). size_arr t ! j)"
    by (rule nElement_loop_fit) (use assms(1) in \<open>simp add: products_fit_def\<close>)
  with assms(2) show ?thesis by (simp add: THCTensor_nElement_def)
qed

text \<open>
  Claim C8, as amended. For a view whose running products of sizes stay within the 64-bit
  signed range, \<open>THCTensor_nElement\<close> is 0 exactly when the view has dimensionality 0 or
  one of its sizes is 0, and for a view of non-zero dimensionality it is the product of
  all its sizes.
\<close>

theorem nElement_zero_iff:
  assumes "products_fit t"
  shows "(THCTensor_nElement t = 0
            \<longleftrightarrow> nDimension t = 0 \<or> (\<exists>d. int d < nDimension t \<and> size_arr t ! d = 0))
     \<and> (nDimension t \<noteq> 0
            \<longrightarrow> THCTensor_nElement t = (\<Prod>d = 0..<nat (nDimension t). size_arr t ! d))"
proof (cases "nDimension t = 0")
  case True
  then show ?thesis by (simp add: THCTensor_nElement_def)
next
  case False
  have p: "THCTensor_nElement t = (\<Prod>d = 0..<nat (nDimension t). size_arr t ! d)"
    using assms False by (rule nElement_fit)
  have "((\<Prod>j = 0..<nat (nDimension t). size_arr t ! j) = 0)
       \<longleftrightarrow> (\<exists>d. int d < nDimension t \<and> size_arr t ! d = 0)"
    by (simp add: prod_zero_iff Bex_def int_less_nat)
  with p False show ?thesis by simp
qed

lemma products_fit_4_3: "products_fit view_4_3"
  unfolding products_fit_def
proof (intro ballI)
  fix k assume "k \<in> {0..nat (nDimension view_4_3)}"
  then have "k = 0 \<or> k = 1 \<or> k = 2" by (auto simp: view_4_3_def)
  then show "int64_ok (\<Prod>d = 0..<k. size_arr view_4_3 ! d)"
    by (auto simp: view_4_3_def int64_ok_def numeral_2_eq_2)
qed

lemma nElement_view_4_3: "THCTensor_nElement view_4_3 = 12"
  by (simp add: THCTensor_nElement_def view_4_3_def nElement_loop.simps wrap64_def)

theorem nElement_zero_iff_witness:
  "products_fit view_4_3
   \<and> THCTensor_nElement view_4_3 = 12
   \<and> \<not> (nDimension view_4_3 = 0 \<or> (\<exists>d. int d < nDimension view_4_3 \<and> size_arr view_4_3 ! d = 0))
   \<and> (12 :: int) = (\<Prod>d = 0..<nat (nDimension view_4_3). size_arr view_4_3 ! d)"
proof -
  have nz: "nDimension view_4_3 \<noteq> 0" by (simp add: view_4_3_def)
  from nElement_zero_iff[OF products_fit_4_3] nElement_view_4_3 products_fit_4_3 nz
  show ?thesis by simp
qed

text \<open>
  Claim C8 as stated fails: for the sizes \<open>[2^32, 2^32]\<close> the product is \<open>2^64\<close>, which
  \<open>nElement *= self->size[d]\<close> leaves as 0, although the dimensionality is 2 and no
  size is 0.
\<close>

theorem nElement_zero_iff_counterexample:
  "THCTensor_nElement view_big = 0 \<and> nDimension view_big = 2
   \<and> size_arr view_big ! 0 = 4294967296 \<and> size_arr view_big ! 1 = 4294967296"
  by (simp add: THCTensor_nElement_def view_big_def nElement_loop.simps wrap64_def)

text \<open>
  Claim C2 fails on the code: a view without storage (one freshly created) resized to
  \<open>[4, 3]\<close> reaches line 115, which evaluates \<open>self->storage->scalar_type\<close> with
  \<open>self->storage\<close> null before any storage is created.
\<close>

theorem resizeNd_creates_no_storage:
  "THCTensor_resizeNd enough_memory ex_heap 2 2 [4, 3] None =
     Inl (NullDeref, set_tensor ex_heap 2
            \<lparr>nDimension = 2, size_arr = [4, 3], stride_arr = [3, 1], storage = None,
               storageOffset = 0\<rparr>)"
  by (simp add: THCTensor_resizeNd_def ex_heap_def new_view_def resize_scan.simps
      THRealloc_def new_stride_def default_stride_def mul64_def add64_def int64_ok_def
      eval_simps resize_storage_def read_scalar_type_def set_tensor_def)

section \<open>Contiguity after a resize without strides\<close>

lemma resize_noop_sizes:
  assumes wf: "tensor_wf t" and len: "nat nDim \<le> length sz"
  shows "resize_noop t nDim sz None \<longleftrightarrow>
     take (nat (nDimension t)) (size_arr t) = takeWhile (\<lambda>x. 0 < x) (take (nat nDim) sz)"
proof
  let ?n = "leading_positive nDim sz"
  assume "resize_noop t nDim sz None"
  then have n: "int ?n = nDimension t" and m: "\<forall>j < ?n. size_arr t ! j = sz ! j"
    by (auto simp: resize_noop_def matches_at_def)
  show "take (nat (nDimension t)) (size_arr t) = takeWhile (\<lambda>x. 0 < x) (take (nat nDim) sz)"
  proof (rule nth_equalityI)
    show "length (take (nat (nDimension t)) (size_arr t))
        = length (takeWhile (\<lambda>x. 0 < x) (take (nat nDim) sz))"
      using wf n by (simp add: tensor_wf_def leading_positive_def)
  next
    fix i assume "i < length (take (nat (nDimension t)) (size_arr t))"
    then have "int i < nDimension t" by (simp add: int_less_nat)
    with n have i: "i < ?n" by linarith
    then show "take (nat (nDimension t)) (size_arr t) ! i
        = takeWhile (\<lambda>x. 0 < x) (take (nat nDim) sz) ! i"
      using m n leading_positive_nth(1)[OF i] by simp
  qed
next
  let ?n = "leading_positive nDim sz"
  assume eq: "take (nat (nDimension t)) (size_arr t) = takeWhile (\<lambda>x. 0 < x) (take (nat nDim) sz)"
  from eq have "length (take (nat (nDimension t)) (size_arr t)) = ?n"
    by (simp add: leading_positive_def)
  with wf have "nat (nDimension t) = ?n" by (simp add: tensor_wf_def)
  moreover from wf have "0 \<le> nDimension t" by (simp add: tensor_wf_def)
  ultimately have n: "int ?n = nDimension t" by linarith
  have "\<forall>j < ?n. size_arr t ! j = sz ! j"
  proof (intro allI impI)
    fix j assume j: "j < ?n"
    then have "take (nat (nDimension t)) (size_arr t) ! j = size_arr t ! j" using n by simp
    with eq leading_positive_nth(1)[OF j] show "size_arr t ! j = sz ! j" by simp
  qed
  with n show "resize_noop t nDim sz None"
    by (simp add: resize_noop_def matches_at_def)
qed

lemma resizeNd_default_contiguous_changed:
  assumes t: "tensors h self = Some t" and wf: "tensor_wf t" and len: "nat nDim \<le> length sz"
    and r: "THCTensor_resizeNd alloc h self nDim sz None = Inr h'"
    and noop: "\<not> resize_noop t nDim sz None"
  shows "\<exists>t'. tensors h' self = Some t' \<and> THCTensor_isContiguous t' = Inr True"
proof -
  let ?n = "leading_positive nDim sz"
  note unf = resizeNd_unfold[OF t len, of alloc None]
  show ?thesis
  proof (cases "0 < ?n")
    case False
    with r unf noop have "h' = set_tensor h self (t\<lparr>nDimension := 0\<rparr>)" by simp
    then show ?thesis by (simp add: THCTensor_isContiguous_def)
  next
    case True
    let ?t1 = "resize_target t ?n"
    from r unf noop True obtain t2 T need where
      fill: "resize_fill sz None ?n ?t1 1 = Inr (t2, T)" and
      stor: "resize_storage alloc (set_tensor h self t2) self t2 need = Inr h'"
      by (auto split: sum.splits prod.splits)
    note f = resize_fill_Inr_fields[OF fill]
    note l = resize_target_length[OF wf, of ?n]
    have tens: "tensors h' self = Some t2"
      using resize_storage_Inr[OF stor] by simp
    have d: "(\<forall>j < ?n. stride_arr t2 ! j = suffix_prod sz ?n (Suc j))
       \<and> (\<forall>j < ?n. int64_ok (suffix_prod sz ?n j)) \<and> T = suffix_prod sz ?n 0"
      by (rule resize_fill_default[OF fill]) (use l in \<open>simp_all add: resize_target_fields\<close>)
    have s: "\<forall>j < ?n. size_arr t2 ! j = sz ! j"
      using resize_fill_size[OF fill] l by auto
    have "contiguous_loop t2 ?n (suffix_prod sz ?n ?n) = Inr True"
      by (rule contiguous_loop_default[where sz = sz and n = "?n"]) (use d s in simp_all)
    then have "THCTensor_isContiguous t2 = Inr True"
      using f by (simp add: THCTensor_isContiguous_def resize_target_fields)
    with tens show ?thesis by simp
  qed
qed

text \<open>
  Claim C4, as amended. A call of \<open>THCTensor_resizeNd\<close> without a stride array that
  returns leaves the view contiguous whenever the view's size array differed from the
  effective requested sizes (the call was not a no-op) or the view was contiguous already.
\<close>

theorem resizeNd_default_contiguous:
  assumes "tensors h self = Some t" and "tensor_wf t" and "nat nDim \<le> length sz"
    and "THCTensor_resizeNd alloc h self nDim sz None = Inr h'"
    and "take (nat (nDimension t)) (size_arr t) \<noteq> takeWhile (\<lambda>x. 0 < x) (take (nat nDim) sz)
         \<or> THCTensor_isContiguous t = Inr True"
  shows "\<exists>t'. tensors h' self = Some t' \<and> THCTensor_isContiguous t' = Inr True"
proof (cases "resize_noop t nDim sz None")
  case True
  with assms(1,3,4) have "h' = h" by (simp add: resizeNd_unfold)
  moreover from True assms(2,3,5) have "THCTensor_isContiguous t = Inr True"
    by (simp add: resize_noop_sizes)
  ultimately show ?thesis using assms(1) by simp
next
  case False
  with assms(1-4) show ?thesis by (rule resizeNd_default_contiguous_changed)
qed

lemma resizeNd_ex_43_contiguous:
  "THCTensor_isContiguous \<lparr>nDimension = 2, size_arr = [4, 3], stride_arr = [3, 1],
      storage = Some 7, storageOffset = 0\<rparr> = Inr True"
  by (simp add: THCTensor_isContiguous_def contiguous_loop_pos mul64_def int64_ok_def)

theorem resizeNd_default_contiguous_witness:
  "tensors ex_heap 3 = Some (new_view\<lparr>storage := Some 7\<rparr>)
   \<and> tensor_wf (new_view\<lparr>storage := Some 7\<rparr>) \<and> nat 2 \<le> length [4, 3 :: int]
   \<and> THCTensor_resizeNd enough_memory ex_heap 3 2 [4, 3] None
        = Inr (heap_of (THCTensor_resizeNd enough_memory ex_heap 3 2 [4, 3] None))
   \<and> take (nat (nDimension (new_view\<lparr>storage := Some 7\<rparr>)))
          (size_arr (new_view\<lparr>storage := Some 7\<rparr>))
        \<noteq> takeWhile (\<lambda>x. 0 < x) (take (nat 2) [4, 3 :: int])
   \<and> (\<exists>t'. tensors (heap_of (THCTensor_resizeNd enough_memory ex_heap 3 2 [4, 3] None)) 3
              = Some t'
            \<and> THCTensor_isContiguous t' = Inr True)"
proof -
  have b: "nat 2 \<le> length [4, 3 :: int]" by simp
  have d: "THCTensor_resizeNd enough_memory ex_heap 3 2 [4, 3] None
            = Inr (heap_of (THCTensor_resizeNd enough_memory ex_heap 3 2 [4, 3] None))"
    by (simp add: resizeNd_ex_43 heap_of_def)
  have e: "take (nat (nDimension (new_view\<lparr>storage := Some 7\<rparr>)))
          (size_arr (new_view\<lparr>storage := Some 7\<rparr>))
        \<noteq> takeWhile (\<lambda>x. 0 < x) (take (nat 2) [4, 3 :: int])"
    by (simp add: new_view_def)
  from resizeNd_default_contiguous[OF tensors_ex_heap_3 tensor_wf_ex b d disjI1[OF e]]
    tensors_ex_heap_3 tensor_wf_ex b d e
  show ?thesis by blast
qed

text \<open>
  Claim C4 as stated fails: a \<open>[4, 3]\<close> view with the transposed strides \<open>[1, 4]\<close>
  (built by a resize with explicit strides) and resized to \<open>[4, 3]\<close> with no stride is
  left as it is by the no-op path, and is not contiguous.
\<close>

theorem resizeNd_default_contiguous_counterexample:
  "THCTensor_resizeNd enough_memory ex_heap 3 2 [4, 3] (Some [1, 4]) = Inr transposed_heap
   \<and> THCTensor_resizeNd enough_memory transposed_heap 3 2 [4, 3] None = Inr transposed_heap
   \<and> tensors transposed_heap 3 = Some view_transposed
   \<and> THCTensor_isContiguous view_transposed = Inr False"
proof (intro conjI)
  show "THCTensor_resizeNd enough_memory ex_heap 3 2 [4, 3] (Some [1, 4]) = Inr transposed_heap"
    by (simp add: THCTensor_resizeNd_def ex_heap_def new_view_def resize_scan.simps
      THRealloc_def new_stride_def default_stride_def mul64_def add64_def int64_ok_def
      eval_simps resize_storage_def THCStorage_resize_def enough_memory_def set_tensor_def
      transposed_heap_def view_transposed_def)
  show "THCTensor_resizeNd enough_memory transposed_heap 3 2 [4, 3] None = Inr transposed_heap"
    by (simp add: THCTensor_resizeNd_def resize_scan.simps transposed_heap_def
      view_transposed_def)
  show "tensors transposed_heap 3 = Some view_transposed"
    by (simp add: transposed_heap_def)
  show "THCTensor_isContiguous view_transposed = Inr False"
    by (simp add: THCTensor_isContiguous_def view_transposed_def contiguous_loop_pos)
qed

section \<open>Assignment and the storage it names\<close>

lemma setStorageNd_storage_Inr:
  assumes "setStorageNd_storage h self t stg = Inr h3"
  shows "tensors h3 = (tensors h)(self \<mapsto> t\<lparr>storage :=
            (case stg of Some a \<Rightarrow> Some a
             | None \<Rightarrow> (if storage t = None then None else Some (next_storage h)))\<rparr>)
         \<or> (h3 = h \<and> storage t = stg)"
  using assms
  by (auto simp: setStorageNd_storage_def THCStorage_free_def THCStorage_retain_def
        THCStorage_new_def read_scalar_type_def
        split: if_splits option.splits sum.splits)

lemma setStorageNd_Inr_view:
  assumes t: "tensors h self = Some t" and wf: "tensor_wf t" and len: "nat nDim \<le> length sz"
    and r: "THCTensor_setStorageNd alloc h self stg off nDim sz st = Inr h'"
  shows "\<exists>t'. tensors h' self = Some t' \<and> (\<forall>p. p \<noteq> self \<longrightarrow> tensors h' p = tensors h p)
     \<and> nDimension t' = int (leading_positive nDim sz) \<and> tensor_wf t'
     \<and> storageOffset t' = off \<and> 0 \<le> off
     \<and> storage t' = (case stg of Some a \<Rightarrow> Some a
             | None \<Rightarrow> (if storage t = None then None else Some (next_storage h)))
     \<and> (\<forall>j < leading_positive nDim sz. size_arr t' ! j = sz ! j)
     \<and> (\<forall>str j. st = Some str \<longrightarrow> j < leading_positive nDim sz \<longrightarrow> 0 \<le> str ! j
           \<longrightarrow> stride_arr t' ! j = str ! j)"
proof -
  let ?new = "case stg of Some a \<Rightarrow> Some a
             | None \<Rightarrow> (if storage t = None then None else Some (next_storage h))"
  from r t obtain h3 where
    s3: "setStorageNd_storage h self t stg = Inr h3" and off: "0 \<le> off"
    by (auto simp: THCTensor_setStorageNd_def split: sum.splits if_splits)
  have t3: "tensors h3 = (tensors h)(self \<mapsto> t\<lparr>storage := ?new\<rparr>)"
  proof -
    from setStorageNd_storage_Inr[OF s3] show ?thesis
    proof
      assume "h3 = h \<and> storage t = stg"
      then have "h3 = h" "t\<lparr>storage := ?new\<rparr> = t" by (auto split: option.splits)
      with t show ?thesis by auto
    qed simp
  qed
  let ?t3 = "t\<lparr>storage := ?new, storageOffset := off\<rparr>"
  let ?h4 = "set_tensor h3 self ?t3"
  from r t s3 off t3 have r4: "THCTensor_resizeNd alloc ?h4 self nDim sz st = Inr h'"
    by (simp add: THCTensor_setStorageNd_def)
  have t4: "tensors ?h4 self = Some ?t3" by simp
  have wf4: "tensor_wf ?t3" using wf by (simp add: tensor_wf_def)
  from resizeNd_Inr_view[OF t4 wf4 len r4] t3 off show ?thesis
    by auto
qed

lemma leading_positive_all:
  assumes "\<forall>d < nat n. 0 < sz ! d" and "nat n \<le> length sz"
  shows "leading_positive n sz = nat n"
proof -
  have "\<forall>x \<in> set (take (nat n) sz). 0 < x"
    using assms by (auto simp: in_set_conv_nth)
  then have tw: "takeWhile (\<lambda>x. 0 < x) (take (nat n) sz) = take (nat n) sz"
    by (simp add: takeWhile_eq_all_conv)
  show ?thesis unfolding leading_positive_def tw using assms(2) by simp
qed

lemma set_Inr_view:
  assumes ne: "self \<noteq> src" and t: "tensors h self = Some t" and s: "tensors h src = Some s"
    and wf: "tensor_wf t" and ok: "view_ok s"
    and r: "THCTensor_set alloc h self src = Inr h'"
  shows "\<exists>t'. tensors h' self = Some t' \<and> (\<forall>p. p \<noteq> self \<longrightarrow> tensors h' p = tensors h p)
     \<and> nDimension t' = nDimension s \<and> tensor_wf t'
     \<and> storageOffset t' = storageOffset s
     \<and> storage t' = (case storage s of Some a \<Rightarrow> Some a
             | None \<Rightarrow> (if storage t = None then None else Some (next_storage h)))
     \<and> (\<forall>j < nat (nDimension s). size_arr t' ! j = size_arr s ! j
                                 \<and> stride_arr t' ! j = stride_arr s ! j)"
proof -
  from ok have wfs: "tensor_wf s" and pos: "\<forall>d < nat (nDimension s). 0 < size_arr s ! d"
    and nonneg: "\<forall>d < nat (nDimension s). 0 \<le> stride_arr s ! d"
    by (auto simp: view_ok_def)
  from wfs have len: "nat (nDimension s) \<le> length (size_arr s)" and n0: "0 \<le> nDimension s"
    by (simp_all add: tensor_wf_def)
  have lp: "leading_positive (nDimension s) (size_arr s) = nat (nDimension s)"
    by (rule leading_positive_all[OF pos len])
  from r ne s have r': "THCTensor_setStorageNd alloc h self (storage s) (storageOffset s)
               (nDimension s) (size_arr s) (Some (stride_arr s)) = Inr h'"
    by (simp add: THCTensor_set_def)
  from setStorageNd_Inr_view[OF t wf len r'] lp n0 nonneg show ?thesis
    by auto
qed

text \<open>
  Claim C9, as amended. After \<open>THCTensor_set\<close> on two distinct views has returned, the
  source view is unchanged and the destination has its dimensionality, sizes, strides and
  storage offset. It names the same storage as the source whenever the source has one, or
  neither view has one; when the source has no storage and the destination has, the
  destination is given a newly created storage instead. The source view is one with
  positive sizes and non-negative strides, as all views built by these operations are.
\<close>

theorem set_aliases:
  assumes "self \<noteq> src" and "tensors h self = Some t" and "tensors h src = Some s"
    and "tensor_wf t" and "view_ok s"
    and "THCTensor_set alloc h self src = Inr h'"
  shows "tensors h' src = Some s
     \<and> (\<exists>t'. tensors h' self = Some t' \<and> nDimension t' = nDimension s
           \<and> take (nat (nDimension s)) (size_arr t') = take (nat (nDimension s)) (size_arr s)
           \<and> take (nat (nDimension s)) (stride_arr t') = take (nat (nDimension s)) (stride_arr s)
           \<and> storageOffset t' = storageOffset s
           \<and> (storage s \<noteq> None \<or> storage t = None \<longrightarrow> storage t' = storage s)
           \<and> (storage s = None \<and> storage t \<noteq> None \<longrightarrow> storage t' = Some (next_storage h)))"
proof -
  from set_Inr_view[OF assms] obtain t' where
    t': "tensors h' self = Some t'" and other: "\<forall>p. p \<noteq> self \<longrightarrow> tensors h' p = tensors h p"
    and n: "nDimension t' = nDimension s" and wf': "tensor_wf t'"
    and off: "storageOffset t' = storageOffset s"
    and stg: "storage t' = (case storage s of Some a \<Rightarrow> Some a
             | None \<Rightarrow> (if storage t = None then None else Some (next_storage h)))"
    and geo: "\<forall>j < nat (nDimension s). size_arr t' ! j = size_arr s ! j
                                 \<and> stride_arr t' ! j = stride_arr s ! j"
    by blast
  from assms(5) have wfs: "tensor_wf s" by (simp add: view_ok_def)
  have "take (nat (nDimension s)) (size_arr t') = take (nat (nDimension s)) (size_arr s)"
    using geo wf' wfs n by (auto simp: tensor_wf_def intro!: nth_equalityI)
  moreover have "take (nat (nDimension s)) (stride_arr t') = take (nat (nDimension s)) (stride_arr s)"
    using geo wf' wfs n by (auto simp: tensor_wf_def intro!: nth_equalityI)
  moreover have "tensors h' src = Some s" using other assms(1,3) by auto
  ultimately show ?thesis using t' n off stg by (auto split: option.splits)
qed

lemmas eval_defs =
  THCTensor_resizeNd_def resize_scan.simps THRealloc_def new_stride_def default_stride_def
  mul64_def add64_def int64_ok_def eval_simps resize_storage_def THCStorage_resize_def
  THCTensor_setStorageNd_def setStorageNd_storage_def THCStorage_free_def
  THCStorage_retain_def THCStorage_new_def read_scalar_type_def THCTensor_set_def
  enough_memory_def no_memory_def

lemma view_ok_4_3: "view_ok view_4_3"
  by (auto simp: view_ok_def tensor_wf_def view_4_3_def less_Suc_eq numeral_2_eq_2)

lemma tensor_wf_new_view: "tensor_wf new_view"
  by (simp add: tensor_wf_def new_view_def)

lemma set_ex_2_3:
  "THCTensor_set enough_memory shared_heap 2 3 =
     Inr (shared_heap\<lparr>tensors := (tensors shared_heap)(2 \<mapsto> view_4_3),
            storages := [7 \<mapsto> \<lparr>size_st = 12, scalar_type = 0, refcount_st = 3\<rparr>]\<rparr>)"
  by (simp add: eval_defs shared_heap_def new_view_def view_4_3_def set_tensor_def)

theorem set_aliases_witness:
  "(2 :: nat) \<noteq> 3 \<and> tensors shared_heap 2 = Some new_view
   \<and> tensors shared_heap 3 = Some view_4_3 \<and> tensor_wf new_view \<and> view_ok view_4_3
   \<and> THCTensor_set enough_memory shared_heap 2 3
        = Inr (heap_of (THCTensor_set enough_memory shared_heap 2 3))
   \<and> tensors (heap_of (THCTensor_set enough_memory shared_heap 2 3)) 3 = Some view_4_3
   \<and> (\<exists>t'. tensors (heap_of (THCTensor_set enough_memory shared_heap 2 3)) 2 = Some t'
          \<and> nDimension t' = 2 \<and> take 2 (size_arr t') = [4, 3] \<and> take 2 (stride_arr t') = [3, 1]
          \<and> storageOffset t' = 0 \<and> storage t' = Some 7)"
proof -
  have a: "(2 :: nat) \<noteq> 3" by simp
  have b: "tensors shared_heap 2 = Some new_view" by (simp add: shared_heap_def)
  have c: "tensors shared_heap 3 = Some view_4_3" by (simp add: shared_heap_def)
  have d: "THCTensor_set enough_memory shared_heap 2 3
        = Inr (heap_of (THCTensor_set enough_memory shared_heap 2 3))"
    by (simp add: set_ex_2_3 heap_of_def)
  from set_aliases[OF a b c tensor_wf_new_view view_ok_4_3 d]
  have "tensors (heap_of (THCTensor_set enough_memory shared_heap 2 3)) 3 = Some view_4_3
     \<and> (\<exists>t'. tensors (heap_of (THCTensor_set enough_memory shared_heap 2 3)) 2 = Some t'
          \<and> nDimension t' = 2 \<and> take 2 (size_arr t') = [4, 3] \<and> take 2 (stride_arr t') = [3, 1]
          \<and> storageOffset t' = 0 \<and> storage t' = Some 7)"
    by (simp add: view_4_3_def)
  with a b c d tensor_wf_new_view view_ok_4_3 show ?thesis by blast
qed

text \<open>
  The rebind without a replacement storage, on a view that holds the only reference to
  its storage: line 142 frees the storage and line 150 then reads its \<open>scalar_type\<close>.
\<close>

lemma setStorageNd_reads_released_storage:
  "THCTensor_setStorageNd enough_memory ex_heap 3 None 0 0 [] None =
     Inl (UseAfterFree, ex_heap\<lparr>storages := (storages ex_heap)(7 := None)\<rparr>)"
  by (simp add: eval_defs ex_heap_def new_view_def)

text \<open>
  Claim C9 as stated fails: view 3 shares its storage with view 4, view 2 has no storage.
  After \<open>THCTensor_set\<close> of view 3 from view 2, view 3 names the newly created storage 8
  while view 2 still names none.
\<close>

theorem set_aliases_counterexample:
  "tensors shared_heap 3 = Some view_4_3 \<and> tensors shared_heap 2 = Some new_view
   \<and> THCTensor_set enough_memory shared_heap 3 2 =
       Inr (shared_heap\<lparr>tensors := (tensors shared_heap)(3 \<mapsto>
              \<lparr>nDimension = 0, size_arr = [4, 3], stride_arr = [3, 1], storage = Some 8,
                 storageOffset = 0\<rparr>),
            storages := [7 \<mapsto> \<lparr>size_st = 12, scalar_type = 0, refcount_st = 1\<rparr>,
                         8 \<mapsto> \<lparr>size_st = 0, scalar_type = 0, refcount_st = 1\<rparr>],
            next_storage := 9\<rparr>)
   \<and> storage new_view = None"
  by (simp add: eval_defs shared_heap_def new_view_def view_4_3_def set_tensor_def)

section \<open>The shapes squeeze and unsqueeze leave\<close>

lemma shift_left_step:
  fixes A :: "int list"
  assumes "d + 1 < n" and "n \<le> length A"
    and "r = (if d + 1 \<le> j \<and> j + 1 < n then (A[d := A ! (d + 1)]) ! (j + 1)
              else (A[d := A ! (d + 1)]) ! j)"
  shows "r = (if d \<le> j \<and> j + 1 < n then A ! (j + 1) else A ! j)"
proof (cases "j = d")
  case True
  with assms show ?thesis by simp
next
  case False
  with assms show ?thesis by (simp add: nth_list_update_gen)
qed

lemma shift_right_step:
  fixes A :: "int list"
  assumes "a < d" and "d < length A"
    and "r = (if a < j \<and> j \<le> d - 1 then (A[d := A ! (d - 1)]) ! (j - 1)
              else (A[d := A ! (d - 1)]) ! j)"
  shows "r = (if a < j \<and> j \<le> d then A ! (j - 1) else A ! j)"
proof (cases "j = d")
  case True
  with assms show ?thesis by simp
next
  case False
  show ?thesis
  proof (cases "a < j \<and> j \<le> d")
    case True
    with False have c: "a < j \<and> j \<le> d - 1" and ne: "d \<noteq> j - 1" by linarith+
    have "r = (A[d := A ! (d - 1)]) ! (j - 1)" unfolding assms(3) using c by (rule if_P)
    also have "\<dots> = A ! (j - 1)" using ne by (rule nth_list_update_neq)
    finally show ?thesis using True by auto
  next
    case nin: False
    then have c: "\<not> (a < j \<and> j \<le> d - 1)" by linarith
    from False have ne: "d \<noteq> j" by simp
    have "r = (A[d := A ! (d - 1)]) ! j" unfolding assms(3) using c by (rule if_not_P)
    also have "\<dots> = A ! j" using ne by (rule nth_list_update_neq)
    finally show ?thesis using nin by auto
  qed
qed

lemma squeeze_shift_fields:
  "nDimension (squeeze_shift t d) = nDimension t \<and> storage (squeeze_shift t d) = storage t
   \<and> storageOffset (squeeze_shift t d) = storageOffset t
   \<and> length (size_arr (squeeze_shift t d)) = length (size_arr t)
   \<and> length (stride_arr (squeeze_shift t d)) = length (stride_arr t)"
proof (induction t d rule: squeeze_shift.induct)
  case (1 self d)
  show ?case
  proof (cases "int d < nDimension self - 1")
    case True
    have unf: "squeeze_shift self d = squeeze_shift
          (self\<lparr>size_arr := (size_arr self)[d := size_arr self ! (d + 1)],
                stride_arr := (stride_arr self)[d := stride_arr self ! (d + 1)]\<rparr>) (d + 1)"
      using True by (subst squeeze_shift.simps) simp
    from "1.IH"[OF True] show ?thesis unfolding unf by simp
  next
    case False
    then have "squeeze_shift self d = self" by (subst squeeze_shift.simps) simp
    then show ?thesis by simp
  qed
qed

lemma squeeze_shift_nth:
  "nat (nDimension t) \<le> length (size_arr t) \<Longrightarrow> nat (nDimension t) \<le> length (stride_arr t) \<Longrightarrow>
   size_arr (squeeze_shift t d) ! j
      = (if d \<le> j \<and> j + 1 < nat (nDimension t) then size_arr t ! (j + 1) else size_arr t ! j)
   \<and> stride_arr (squeeze_shift t d) ! j
      = (if d \<le> j \<and> j + 1 < nat (nDimension t) then stride_arr t ! (j + 1) else stride_arr t ! j)"
proof (induction t d rule: squeeze_shift.induct)
  case (1 self d)
  show ?case
  proof (cases "int d < nDimension self - 1")
    case True
    let ?self' = "self\<lparr>size_arr := (size_arr self)[d := size_arr self ! (d + 1)],
                stride_arr := (stride_arr self)[d := stride_arr self ! (d + 1)]\<rparr>"
    from True have d1: "d + 1 < nat (nDimension self)" by linarith
    have unf: "squeeze_shift self d = squeeze_shift ?self' (d + 1)"
      using True by (subst squeeze_shift.simps) simp
    have IH: "size_arr (squeeze_shift ?self' (d + 1)) ! j
      = (if d + 1 \<le> j \<and> j + 1 < nat (nDimension ?self') then size_arr ?self' ! (j + 1)
         else size_arr ?self' ! j)
     \<and> stride_arr (squeeze_shift ?self' (d + 1)) ! j
      = (if d + 1 \<le> j \<and> j + 1 < nat (nDimension ?self') then stride_arr ?self' ! (j + 1)
         else stride_arr ?self' ! j)"
      by (rule "1.IH"[OF True]) (use "1.prems" in simp_all)
    from IH have a: "size_arr (squeeze_shift ?self' (d + 1)) ! j
        = (if d + 1 \<le> j \<and> j + 1 < nat (nDimension self)
           then ((size_arr self)[d := size_arr self ! (d + 1)]) ! (j + 1)
           else ((size_arr self)[d := size_arr self ! (d + 1)]) ! j)"
      and b: "stride_arr (squeeze_shift ?self' (d + 1)) ! j
        = (if d + 1 \<le> j \<and> j + 1 < nat (nDimension self)
           then ((stride_arr self)[d := stride_arr self ! (d + 1)]) ! (j + 1)
           else ((stride_arr self)[d := stride_arr self ! (d + 1)]) ! j)"
      by simp_all
    show ?thesis
      unfolding unf
      using shift_left_step[OF d1 "1.prems"(1) a] shift_left_step[OF d1 "1.prems"(2) b]
      by (rule conjI)
  next
    case False
    then have "squeeze_shift self d = self" by (subst squeeze_shift.simps) simp
    moreover from False have "\<not> (d \<le> j \<and> j + 1 < nat (nDimension self))" by linarith
    ultimately show ?thesis by auto
  qed
qed

lemma unsqueeze_shift_fields:
  "nDimension (unsqueeze_shift a t d) = nDimension t \<and> storage (unsqueeze_shift a t d) = storage t
   \<and> storageOffset (unsqueeze_shift a t d) = storageOffset t
   \<and> length (size_arr (unsqueeze_shift a t d)) = length (size_arr t)
   \<and> length (stride_arr (unsqueeze_shift a t d)) = length (stride_arr t)"
proof (induction a t d rule: unsqueeze_shift.induct)
  case (1 dimension self d)
  show ?case
  proof (cases "d > dimension")
    case True
    have unf: "unsqueeze_shift dimension self d = unsqueeze_shift dimension
          (self\<lparr>size_arr := (size_arr self)[d := size_arr self ! (d - 1)],
                stride_arr := (stride_arr self)[d := stride_arr self ! (d - 1)]\<rparr>) (d - 1)"
      using True by (subst unsqueeze_shift.simps) simp
    from "1.IH"[OF True] show ?thesis unfolding unf by simp
  next
    case False
    then have "unsqueeze_shift dimension self d = self" by (subst unsqueeze_shift.simps) simp
    then show ?thesis by simp
  qed
qed

lemma unsqueeze_shift_nth:
  "d < length (size_arr t) \<Longrightarrow> d < length (stride_arr t) \<Longrightarrow>
   size_arr (unsqueeze_shift a t d) ! j
      = (if a < j \<and> j \<le> d then size_arr t ! (j - 1) else size_arr t ! j)
   \<and> stride_arr (unsqueeze_shift a t d) ! j
      = (if a < j \<and> j \<le> d then stride_arr t ! (j - 1) else stride_arr t ! j)"
proof (induction a t d rule: unsqueeze_shift.induct)
  case (1 dimension self d)
  show ?case
  proof (cases "d > dimension")
    case True
    let ?self' = "self\<lparr>size_arr := (size_arr self)[d := size_arr self ! (d - 1)],
                stride_arr := (stride_arr self)[d := stride_arr self ! (d - 1)]\<rparr>"
    have unf: "unsqueeze_shift dimension self d = unsqueeze_shift dimension ?self' (d - 1)"
      using True by (subst unsqueeze_shift.simps) simp
    have IH: "size_arr (unsqueeze_shift dimension ?self' (d - 1)) ! j
      = (if dimension < j \<and> j \<le> d - 1 then size_arr ?self' ! (j - 1) else size_arr ?self' ! j)
     \<and> stride_arr (unsqueeze_shift dimension ?self' (d - 1)) ! j
      = (if dimension < j \<and> j \<le> d - 1 then stride_arr ?self' ! (j - 1) else stride_arr ?self' ! j)"
      by (rule "1.IH"[OF True]) (use "1.prems" in simp_all)
    from IH have a: "size_arr (unsqueeze_shift dimension ?self' (d - 1)) ! j
        = (if dimension < j \<and> j \<le> d - 1
           then ((size_arr self)[d := size_arr self ! (d - 1)]) ! (j - 1)
           else ((size_arr self)[d := size_arr self ! (d - 1)]) ! j)"
      and b: "stride_arr (unsqueeze_shift dimension ?self' (d - 1)) ! j
        = (if dimension < j \<and> j \<le> d - 1
           then ((stride_arr self)[d := stride_arr self ! (d - 1)]) ! (j - 1)
           else ((stride_arr self)[d := stride_arr self ! (d - 1)]) ! j)"
      by simp_all
    show ?thesis
      unfolding unf
      using shift_right_step[OF True "1.prems"(1) a] shift_right_step[OF True "1.prems"(2) b]
      by (rule conjI)
  next
    case False
    then have "unsqueeze_shift dimension self d = self" by (subst unsqueeze_shift.simps) simp
    moreover from False have "\<not> (dimension < j \<and> j \<le> d)" by linarith
    ultimately show ?thesis by auto
  qed
qed

lemma set_geometry:
  assumes t: "tensors h self = Some t" and V: "tensors h src = Some V"
    and wf: "tensor_wf t" and ok: "src \<noteq> self \<longrightarrow> view_ok V"
    and r: "THCTensor_set alloc h self src = Inr h1"
  shows "tensors h1 src = Some V \<and> (\<forall>p. p \<noteq> self \<longrightarrow> tensors h1 p = tensors h p)
     \<and> (\<exists>t1. tensors h1 self = Some t1 \<and> nDimension t1 = nDimension V \<and> tensor_wf t1
           \<and> (\<forall>j < nat (nDimension V). size_arr t1 ! j = size_arr V ! j
                                        \<and> stride_arr t1 ! j = stride_arr V ! j))"
proof (cases "src = self")
  case True
  with r have "h1 = h" by (simp add: THCTensor_set_def)
  with True t V wf show ?thesis by auto
next
  case False
  then have ne: "self \<noteq> src" by simp
  from False ok have okV: "view_ok V" by simp
  from set_Inr_view[OF ne t V wf okV r] False V show ?thesis by auto
qed

lemma squeeze1d_Inr_view:
  assumes src: "src = (case src_opt of None \<Rightarrow> self | Some p \<Rightarrow> p)"
    and t: "tensors h self = Some t" and V: "tensors h src = Some V"
    and wf: "tensor_wf t" and ok: "src \<noteq> self \<longrightarrow> view_ok V"
    and r: "THCTensor_squeeze1d alloc h self src_opt dimension = Inr h'"
  shows "0 \<le> dimension \<and> dimension < nDimension V
     \<and> (\<forall>p. p \<noteq> self \<longrightarrow> tensors h' p = tensors h p)
     \<and> (\<exists>t'. tensors h' self = Some t' \<and> tensor_wf t'
           \<and> (if size_arr V ! nat dimension = 1 \<and> 1 < nDimension V
               then nDimension t' = nDimension V - 1
                 \<and> (\<forall>j. int j < nDimension V - 1 \<longrightarrow>
                       size_arr t' ! j = size_arr V ! (if j < nat dimension then j else j + 1)
                     \<and> stride_arr t' ! j = stride_arr V ! (if j < nat dimension then j else j + 1))
               else nDimension t' = nDimension V
                 \<and> (\<forall>j. int j < nDimension V \<longrightarrow>
                       size_arr t' ! j = size_arr V ! j \<and> stride_arr t' ! j = stride_arr V ! j)))"
proof -
  from r V src have dim: "dimension < nDimension V"
    by (auto simp: THCTensor_squeeze1d_def Let_def split: if_splits)
  from r V src dim obtain h1 where
    s1: "THCTensor_set alloc h self src = Inr h1"
    by (auto simp: THCTensor_squeeze1d_def Let_def split: sum.splits)
  from set_geometry[OF t V wf ok s1] obtain t1 where
    V1: "tensors h1 src = Some V" and oth: "\<forall>p. p \<noteq> self \<longrightarrow> tensors h1 p = tensors h p"
    and t1: "tensors h1 self = Some t1" and n1: "nDimension t1 = nDimension V"
    and wf1: "tensor_wf t1"
    and geo: "\<forall>j < nat (nDimension V). size_arr t1 ! j = size_arr V ! j
                                        \<and> stride_arr t1 ! j = stride_arr V ! j"
    by blast
  from r V src dim s1 V1 t1 have nonneg: "0 \<le> dimension"
    by (auto simp: THCTensor_squeeze1d_def Let_def split: if_splits)
  show ?thesis
  proof (cases "size_arr V ! nat dimension = 1 \<and> 1 < nDimension V")
    case False
    with r V src dim s1 V1 t1 nonneg have "h' = h1"
      by (auto simp: THCTensor_squeeze1d_def Let_def)
    with False t1 wf1 n1 geo oth dim nonneg show ?thesis
      by (auto simp: int_less_nat)
  next
    case True
    let ?sq = "squeeze_shift t1 (nat dimension)"
    let ?t' = "?sq\<lparr>nDimension := nDimension ?sq - 1\<rparr>"
    from True r V src dim s1 V1 t1 nonneg have h': "h' = set_tensor h1 self ?t'"
      by (auto simp: THCTensor_squeeze1d_def Let_def)
    note f = squeeze_shift_fields[of t1 "nat dimension"]
    from wf1 have l1: "nat (nDimension t1) \<le> length (size_arr t1)"
      and l2: "nat (nDimension t1) \<le> length (stride_arr t1)"
      by (simp_all add: tensor_wf_def)
    have wf': "tensor_wf ?t'"
    proof -
      have "nat (nDimension V - 1) \<le> nat (nDimension V)" by simp
      with l1 l2 n1 have "nat (nDimension V - 1) \<le> length (size_arr t1)"
        and "nat (nDimension V - 1) \<le> length (stride_arr t1)" by simp_all
      with f True n1 show ?thesis by (simp add: tensor_wf_def)
    qed
    have ent: "\<forall>j. int j < nDimension V - 1 \<longrightarrow>
                       size_arr ?t' ! j = size_arr V ! (if j < nat dimension then j else j + 1)
                     \<and> stride_arr ?t' ! j = stride_arr V ! (if j < nat dimension then j else j + 1)"
    proof (intro allI impI)
      fix j assume j: "int j < nDimension V - 1"
      then have j1: "j + 1 < nat (nDimension V)" by linarith
      then have j0: "j < nat (nDimension V)" by simp
      note sh = squeeze_shift_nth[OF l1 l2, of "nat dimension" j]
      show "size_arr ?t' ! j = size_arr V ! (if j < nat dimension then j else j + 1)
          \<and> stride_arr ?t' ! j = stride_arr V ! (if j < nat dimension then j else j + 1)"
      proof (cases "j < nat dimension")
        case True
        with sh geo j0 show ?thesis by simp
      next
        case False
        with sh geo j1 n1 show ?thesis by simp
      qed
    qed
    from h' oth have "\<forall>p. p \<noteq> self \<longrightarrow> tensors h' p = tensors h p" by simp
    moreover have "tensors h' self = Some ?t'" using h' by simp
    moreover have "nDimension ?t' = nDimension V - 1" using f n1 by simp
    ultimately show ?thesis using True wf' ent dim nonneg by simp
  qed
qed


lemma squeeze_shift_pos:
  "int d < nDimension self - 1 \<Longrightarrow> squeeze_shift self d =
     squeeze_shift
          (self\<lparr>size_arr := (size_arr self)[d := size_arr self ! (d + 1)],
                stride_arr := (stride_arr self)[d := stride_arr self ! (d + 1)]\<rparr>)
          (d + 1)"
  by (subst squeeze_shift.simps) simp

lemma squeeze_shift_stop: "\<not> int d < nDimension self - 1 \<Longrightarrow> squeeze_shift self d = self"
  by (subst squeeze_shift.simps) simp

lemma unsqueeze_shift_pos:
  "d > dimension \<Longrightarrow> unsqueeze_shift dimension self d =
     unsqueeze_shift dimension
          (self\<lparr>size_arr := (size_arr self)[d := size_arr self ! (d - 1)],
                stride_arr := (stride_arr self)[d := stride_arr self ! (d - 1)]\<rparr>)
          (d - 1)"
  by (subst unsqueeze_shift.simps) simp

lemma unsqueeze_shift_stop: "\<not> d > dimension \<Longrightarrow> unsqueeze_shift dimension self d = self"
  by (subst unsqueeze_shift.simps) simp

lemmas shift_eval = squeeze_shift_pos squeeze_shift_stop unsqueeze_shift_pos unsqueeze_shift_stop

lemma squeeze_ex:
  "THCTensor_squeeze1d enough_memory strided_heap 3 None 1 = Inr squeezed_heap"
  by (simp add: THCTensor_squeeze1d_def THCTensor_set_def strided_heap_def squeezed_heap_def
        view_4_1_3_def shift_eval set_tensor_def)

lemma unsqueeze_ex:
  "THCTensor_unsqueeze1d enough_memory squeezed_heap 3 None 1 = Inr unsqueezed_heap"
  by (simp add: THCTensor_unsqueeze1d_def THCTensor_set_def unsqueezed_heap_def squeezed_heap_def
        shift_eval set_tensor_def THRealloc_def mul64_def int64_ok_def Let_def)

lemma THRealloc_length [simp]: "length (THRealloc xs m) = m"
  by (simp add: THRealloc_def)

lemma THRealloc_nth: "j < m \<Longrightarrow> j < length xs \<Longrightarrow> THRealloc xs m ! j = xs ! j"
  by (simp add: THRealloc_def nth_append)

lemma unsqueeze1d_Inr_view:
  assumes src: "src = (case src_opt of None \<Rightarrow> self | Some p \<Rightarrow> p)"
    and t: "tensors h self = Some t" and V: "tensors h src = Some V"
    and wf: "tensor_wf t" and ok: "src \<noteq> self \<longrightarrow> view_ok V"
    and r: "THCTensor_unsqueeze1d alloc h self src_opt dimension = Inr h'"
  shows "0 \<le> dimension \<and> dimension \<le> nDimension V \<and> 0 < nDimension V
     \<and> (\<forall>p. p \<noteq> self \<longrightarrow> tensors h' p = tensors h p)
     \<and> (\<exists>t'. tensors h' self = Some t' \<and> tensor_wf t' \<and> nDimension t' = nDimension V + 1
           \<and> (\<forall>j \<le> nat (nDimension V).
                 size_arr t' ! j =
                   (if j < nat dimension then size_arr V ! j
                    else if j = nat dimension then 1 else size_arr V ! (j - 1))
               \<and> stride_arr t' ! j =
                   (if j < nat dimension then stride_arr V ! j
                    else if j = nat dimension
                    then (if dimension < nDimension V
                          then size_arr V ! nat dimension * stride_arr V ! nat dimension else 1)
                    else stride_arr V ! (j - 1))))"
proof -
  let ?a = "nat dimension" and ?n = "nat (nDimension V)"
  from r V src have rng: "0 \<le> dimension" "dimension \<le> nDimension V" "0 < nDimension V"
    by (auto simp: THCTensor_unsqueeze1d_def Let_def split: if_splits)
  from r V src rng obtain h1 where
    s1: "THCTensor_set alloc h self src = Inr h1"
    by (auto simp: THCTensor_unsqueeze1d_def Let_def split: sum.splits)
  from set_geometry[OF t V wf ok s1] obtain t1 where
    oth: "\<forall>p. p \<noteq> self \<longrightarrow> tensors h1 p = tensors h p"
    and t1: "tensors h1 self = Some t1" and n1: "nDimension t1 = nDimension V"
    and wf1: "tensor_wf t1"
    and geo: "\<forall>j < ?n. size_arr t1 ! j = size_arr V ! j \<and> stride_arr t1 ! j = stride_arr V ! j"
    by blast
  let ?t2 = "t1\<lparr>size_arr := THRealloc (size_arr t1) (nat (nDimension t1 + 1)),
               stride_arr := THRealloc (stride_arr t1) (nat (nDimension t1 + 1)),
               nDimension := nDimension t1 + 1\<rparr>"
  let ?t3 = "unsqueeze_shift ?a ?t2 (nat (nDimension ?t2 - 1))"
  from r V src rng s1 t1 obtain s where
    s: "(if dimension + 1 < nDimension ?t3
         then mul64 (size_arr ?t3 ! nat (dimension + 1)) (stride_arr ?t3 ! nat (dimension + 1))
         else Inr 1) = Inr s"
    and h': "h' = set_tensor h1 self
               (?t3\<lparr>stride_arr := (stride_arr ?t3)[?a := s],
                     size_arr := (size_arr ?t3)[?a := 1]\<rparr>)"
    by (auto simp: THCTensor_unsqueeze1d_def Let_def split: sum.splits if_splits)
  let ?t5 = "?t3\<lparr>stride_arr := (stride_arr ?t3)[?a := s], size_arr := (size_arr ?t3)[?a := 1]\<rparr>"
  note f = unsqueeze_shift_fields[of ?a ?t2 "nat (nDimension ?t2 - 1)"]
  have nn: "nat (nDimension t1 + 1) = Suc ?n" "nat (nDimension ?t2 - 1) = ?n"
    using n1 rng by simp_all
  have len3: "length (size_arr ?t3) = Suc ?n" "length (stride_arr ?t3) = Suc ?n"
    using f nn by simp_all
  have l1: "?n \<le> length (size_arr t1)" "?n \<le> length (stride_arr t1)"
    using wf1 n1 by (simp_all add: tensor_wf_def)
  have t2nth: "\<And>j. j < ?n \<Longrightarrow> size_arr ?t2 ! j = size_arr V ! j
                                \<and> stride_arr ?t2 ! j = stride_arr V ! j"
    using geo l1 nn by (simp add: THRealloc_nth)
  have sh: "\<And>j. size_arr ?t3 ! j = (if ?a < j \<and> j \<le> ?n then size_arr ?t2 ! (j - 1)
                                     else size_arr ?t2 ! j)
              \<and> stride_arr ?t3 ! j = (if ?a < j \<and> j \<le> ?n then stride_arr ?t2 ! (j - 1)
                                     else stride_arr ?t2 ! j)"
  proof -
    fix j
    have "?n < length (size_arr ?t2)" "?n < length (stride_arr ?t2)" using nn by simp_all
    from unsqueeze_shift_nth[OF this, of ?a j] nn(2)
    show "size_arr ?t3 ! j = (if ?a < j \<and> j \<le> ?n then size_arr ?t2 ! (j - 1)
                                     else size_arr ?t2 ! j)
              \<and> stride_arr ?t3 ! j = (if ?a < j \<and> j \<le> ?n then stride_arr ?t2 ! (j - 1)
                                     else stride_arr ?t2 ! j)"
      by simp
  qed
  have an: "?a \<le> ?n" using rng by simp
  have s_eq: "s = (if dimension < nDimension V
                   then size_arr V ! ?a * stride_arr V ! ?a else 1)"
  proof (cases "dimension < nDimension V")
    case True
    then have a: "?a < ?n" using rng by simp
    from True f n1 have c: "dimension + 1 < nDimension ?t3" by simp
    have idx: "nat (dimension + 1) = Suc ?a" using rng by simp
    from sh[of "Suc ?a"] a t2nth[OF a]
    have "size_arr ?t3 ! Suc ?a = size_arr V ! ?a" "stride_arr ?t3 ! Suc ?a = stride_arr V ! ?a"
      by simp_all
    moreover from s c idx
    have "mul64 (size_arr ?t3 ! Suc ?a) (stride_arr ?t3 ! Suc ?a) = Inr s" by simp
    ultimately show ?thesis using True by (auto dest: mul64_Inr)
  next
    case False
    with f n1 have "\<not> dimension + 1 < nDimension ?t3" by simp
    with s False show ?thesis by simp
  qed
  have ent: "\<forall>j \<le> ?n.
                 size_arr ?t5 ! j =
                   (if j < ?a then size_arr V ! j
                    else if j = ?a then 1 else size_arr V ! (j - 1))
               \<and> stride_arr ?t5 ! j =
                   (if j < ?a then stride_arr V ! j
                    else if j = ?a
                    then (if dimension < nDimension V
                          then size_arr V ! ?a * stride_arr V ! ?a else 1)
                    else stride_arr V ! (j - 1))"
  proof (intro allI impI)
    fix j assume j: "j \<le> ?n"
    consider (lt) "j < ?a" | (eq) "j = ?a" | (gt) "?a < j" by linarith
    then show "size_arr ?t5 ! j =
                   (if j < ?a then size_arr V ! j
                    else if j = ?a then 1 else size_arr V ! (j - 1))
               \<and> stride_arr ?t5 ! j =
                   (if j < ?a then stride_arr V ! j
                    else if j = ?a
                    then (if dimension < nDimension V
                          then size_arr V ! ?a * stride_arr V ! ?a else 1)
                    else stride_arr V ! (j - 1))"
    proof cases
      case lt
      then have "j < ?n" using an by simp
      from t2nth[OF this] sh[of j] lt show ?thesis by simp
    next
      case eq
      with len3 an s_eq show ?thesis by simp
    next
      case gt
      then have "j - 1 < ?n" using j by simp
      from t2nth[OF this] sh[of j] gt j show ?thesis by simp
    qed
  qed
  have wf5: "tensor_wf ?t5"
    using f len3 nn n1 rng by (simp add: tensor_wf_def)
  have n5: "nDimension ?t5 = nDimension V + 1" using f n1 by simp
  from h' oth have "\<forall>p. p \<noteq> self \<longrightarrow> tensors h' p = tensors h p" by simp
  moreover from h' have "tensors h' self = Some ?t5" by simp
  ultimately show ?thesis using rng wf5 n5 ent by blast
qed

lemma tensor_wf_4_1_3: "tensor_wf view_4_1_3"
  by (simp add: tensor_wf_def view_4_1_3_def)

lemma tensors_strided_heap: "tensors strided_heap 3 = Some view_4_1_3"
  by (simp add: strided_heap_def)


text \<open>
  Claim C5, as amended. For a view \<open>V\<close> with \<open>V.size[axis] = 1\<close> and \<open>V.n > 1\<close>,
  \<open>THCTensor_squeeze1d\<close> followed by \<open>THCTensor_unsqueeze1d\<close> at the same axis (both in
  place) gives back \<open>V\<close>'s dimensionality, its size array and its strides at every other
  axis; the stride at the axis itself is recomputed as \<open>size[axis+1] * stride[axis+1]\<close>,
  or 1 at the last axis, whatever it was in \<open>V\<close>.
\<close>

theorem squeeze_unsqueeze:
  assumes "tensors h self = Some V" and "tensor_wf V"
    and "0 \<le> dimension" and "dimension < nDimension V"
    and "size_arr V ! nat dimension = 1" and "1 < nDimension V"
    and "THCTensor_squeeze1d alloc h self None dimension = Inr h1"
    and "THCTensor_unsqueeze1d alloc' h1 self None dimension = Inr h2"
  shows "\<exists>t2. tensors h2 self = Some t2 \<and> nDimension t2 = nDimension V
     \<and> take (nat (nDimension V)) (size_arr t2) = take (nat (nDimension V)) (size_arr V)
     \<and> (\<forall>j. int j < nDimension V \<and> j \<noteq> nat dimension \<longrightarrow> stride_arr t2 ! j = stride_arr V ! j)
     \<and> stride_arr t2 ! nat dimension =
         (if dimension + 1 < nDimension V
          then size_arr V ! (nat dimension + 1) * stride_arr V ! (nat dimension + 1) else 1)"
proof -
  let ?a = "nat dimension" and ?n = "nat (nDimension V)"
  have src: "self = (case None :: nat option of None \<Rightarrow> self | Some p \<Rightarrow> p)" by simp
  have ok: "self \<noteq> self \<longrightarrow> view_ok V" by simp
  from squeeze1d_Inr_view[OF src assms(1) assms(1) assms(2) ok assms(7)] assms(5,6)
  obtain t1 where t1: "tensors h1 self = Some t1" and wf1: "tensor_wf t1"
    and n1: "nDimension t1 = nDimension V - 1"
    and e1: "\<forall>j. int j < nDimension V - 1 \<longrightarrow>
                size_arr t1 ! j = size_arr V ! (if j < ?a then j else j + 1)
              \<and> stride_arr t1 ! j = stride_arr V ! (if j < ?a then j else j + 1)"
    by auto
  have ok1: "self \<noteq> self \<longrightarrow> view_ok t1" by simp
  from unsqueeze1d_Inr_view[OF src t1 t1 wf1 ok1 assms(8)] n1
  obtain t2 where t2: "tensors h2 self = Some t2" and wf2: "tensor_wf t2"
    and n2: "nDimension t2 = nDimension V"
    and e2: "\<forall>j \<le> nat (nDimension V - 1).
                 size_arr t2 ! j =
                   (if j < ?a then size_arr t1 ! j
                    else if j = ?a then 1 else size_arr t1 ! (j - 1))
               \<and> stride_arr t2 ! j =
                   (if j < ?a then stride_arr t1 ! j
                    else if j = ?a
                    then (if dimension < nDimension V - 1
                          then size_arr t1 ! ?a * stride_arr t1 ! ?a else 1)
                    else stride_arr t1 ! (j - 1))"
    by auto
  have an: "?a < ?n" using assms(3,4) by simp
  have ent: "\<And>j. j < ?n \<Longrightarrow> size_arr t2 ! j = size_arr V ! j
               \<and> (j \<noteq> ?a \<longrightarrow> stride_arr t2 ! j = stride_arr V ! j)"
  proof -
    fix j assume j: "j < ?n"
    then have jn: "j \<le> nat (nDimension V - 1)" by linarith
    consider (lt) "j < ?a" | (eq) "j = ?a" | (gt) "?a < j" by linarith
    then show "size_arr t2 ! j = size_arr V ! j
               \<and> (j \<noteq> ?a \<longrightarrow> stride_arr t2 ! j = stride_arr V ! j)"
    proof cases
      case lt
      with an have "int j < nDimension V - 1" by linarith
      from e1[rule_format, OF this] e2[rule_format, OF jn] lt show ?thesis by simp
    next
      case eq
      with e2[rule_format, OF jn] assms(5) show ?thesis by simp
    next
      case gt
      with j have "int (j - 1) < nDimension V - 1" by linarith
      moreover from gt have k: "\<not> j - 1 < ?a" "j - 1 + 1 = j" by linarith+
      ultimately have "size_arr t1 ! (j - 1) = size_arr V ! j"
        "stride_arr t1 ! (j - 1) = stride_arr V ! j"
        using e1[rule_format, of "j - 1"] by simp_all
      with e2[rule_format, OF jn] gt show ?thesis by simp
    qed
  qed
  have sz: "take ?n (size_arr t2) = take ?n (size_arr V)"
  proof (rule nth_equalityI)
    show "length (take ?n (size_arr t2)) = length (take ?n (size_arr V))"
      using wf2 assms(2) n2 by (simp add: tensor_wf_def)
  next
    fix i assume "i < length (take ?n (size_arr t2))"
    then have "i < ?n" by simp
    then show "take ?n (size_arr t2) ! i = take ?n (size_arr V) ! i" using ent by simp
  qed
  have str: "\<forall>j. int j < nDimension V \<and> j \<noteq> ?a \<longrightarrow> stride_arr t2 ! j = stride_arr V ! j"
    using ent by (simp add: int_less_nat)
  have ax: "stride_arr t2 ! ?a =
         (if dimension + 1 < nDimension V
          then size_arr V ! (?a + 1) * stride_arr V ! (?a + 1) else 1)"
  proof (cases "dimension + 1 < nDimension V")
    case True
    then have "int ?a < nDimension V - 1" using assms(3) by simp
    from e1[rule_format, OF this]
    have "size_arr t1 ! ?a = size_arr V ! (?a + 1)" "stride_arr t1 ! ?a = stride_arr V ! (?a + 1)"
      by simp_all
    moreover have "?a \<le> nat (nDimension V - 1)" using True assms(3) by simp
    ultimately show ?thesis using e2 True by simp
  next
    case False
    moreover have "?a \<le> nat (nDimension V - 1)" using an by linarith
    ultimately show ?thesis using e2 by simp
  qed
  from t2 n2 sz str ax show ?thesis by blast
qed

theorem squeeze_unsqueeze_witness:
  "tensors strided_heap 3 = Some view_4_1_3 \<and> tensor_wf view_4_1_3
   \<and> (0 :: int) \<le> 1 \<and> 1 < nDimension view_4_1_3 \<and> size_arr view_4_1_3 ! nat 1 = 1
   \<and> THCTensor_squeeze1d enough_memory strided_heap 3 None 1 = Inr squeezed_heap
   \<and> THCTensor_unsqueeze1d enough_memory squeezed_heap 3 None 1 = Inr unsqueezed_heap
   \<and> (\<exists>t2. tensors unsqueezed_heap 3 = Some t2 \<and> nDimension t2 = 3
          \<and> take 3 (size_arr t2) = [4, 1, 3]
          \<and> stride_arr t2 ! 0 = 3 \<and> stride_arr t2 ! 2 = 1 \<and> stride_arr t2 ! 1 = 3 * 1)"
proof -
  have c: "(0 :: int) \<le> 1" by simp
  have d: "1 < nDimension view_4_1_3" by (simp add: view_4_1_3_def)
  have e: "size_arr view_4_1_3 ! nat 1 = 1" by (simp add: view_4_1_3_def)
  from squeeze_unsqueeze[OF tensors_strided_heap tensor_wf_4_1_3 c d e d squeeze_ex unsqueeze_ex]
  obtain t2 where t2: "tensors unsqueezed_heap 3 = Some t2"
    and n: "nDimension t2 = nDimension view_4_1_3"
    and sz: "take (nat (nDimension view_4_1_3)) (size_arr t2)
              = take (nat (nDimension view_4_1_3)) (size_arr view_4_1_3)"
    and str: "\<forall>j. int j < nDimension view_4_1_3 \<and> j \<noteq> nat 1
               \<longrightarrow> stride_arr t2 ! j = stride_arr view_4_1_3 ! j"
    and ax: "stride_arr t2 ! nat 1 =
         (if 1 + 1 < nDimension view_4_1_3
          then size_arr view_4_1_3 ! (nat 1 + 1) * stride_arr view_4_1_3 ! (nat 1 + 1) else 1)"
    by blast
  from n sz str[rule_format, of 0] str[rule_format, of 2] ax
  have "nDimension t2 = 3 \<and> take 3 (size_arr t2) = [4, 1, 3]
          \<and> stride_arr t2 ! 0 = 3 \<and> stride_arr t2 ! 2 = 1 \<and> stride_arr t2 ! 1 = 3 * 1"
    by (simp add: view_4_1_3_def)
  with tensors_strided_heap tensor_wf_4_1_3 c d e squeeze_ex unsqueeze_ex t2
  show ?thesis by blast
qed

text \<open>
  Claim C5 as stated fails: a \<open>[4, 1, 3]\<close> view with strides \<open>[3, 7, 1]\<close>, squeezed and
  then unsqueezed at axis 1, has strides \<open>[3, 3, 1]\<close>: the stride 7 of the size-1 axis is
  not reproduced.
\<close>

theorem squeeze_unsqueeze_counterexample:
  "tensors strided_heap 3
     = Some \<lparr>nDimension = 3, size_arr = [4, 1, 3], stride_arr = [3, 7, 1],
              storage = Some 7, storageOffset = 0\<rparr>
   \<and> THCTensor_squeeze1d enough_memory strided_heap 3 None 1 = Inr squeezed_heap
   \<and> THCTensor_unsqueeze1d enough_memory squeezed_heap 3 None 1 = Inr unsqueezed_heap
   \<and> tensors unsqueezed_heap 3
     = Some \<lparr>nDimension = 3, size_arr = [4, 1, 3], stride_arr = [3, 3, 1],
              storage = Some 7, storageOffset = 0\<rparr>"
  by (simp add: squeeze_ex unsqueeze_ex) (simp add: strided_heap_def unsqueezed_heap_def view_4_1_3_def)

section \<open>Positive sizes as an invariant\<close>

lemma resize_fill_nonneg:
  assumes "resize_fill sz st k t T = Inr (t', T')"
    and "k \<le> n" and "int n = nDimension t"
    and "n \<le> length (size_arr t)" and "n \<le> length (stride_arr t)"
    and "\<forall>j < n. 0 < sz ! j"
    and "\<forall>j. k \<le> j \<and> j < n \<longrightarrow> 0 \<le> stride_arr t ! j \<and> size_arr t ! j = sz ! j"
  shows "\<forall>j < n. 0 \<le> stride_arr t' ! j"
  using assms
proof (induction k arbitrary: t T)
  case 0
  then show ?case by simp
next
  case (Suc d)
  let ?t1 = "t\<lparr>size_arr := (size_arr t)[d := sz ! d]\<rparr>"
  from Suc.prems(1) obtain s x where
    s: "new_stride st ?t1 d = Inr s" and
    rec: "resize_fill sz st d (t\<lparr>size_arr := (size_arr t)[d := sz ! d],
                                 stride_arr := (stride_arr t)[d := s]\<rparr>) x = Inr (t', T')"
    by (auto simp: Let_def split: sum.splits)
  have dn: "d < n" using Suc.prems(2) by simp
  have def_nonneg: "\<And>s'. default_stride ?t1 d = Inr s' \<Longrightarrow> 0 \<le> s'"
  proof -
    fix s' assume ds: "default_stride ?t1 d = Inr s'"
    show "0 \<le> s'"
    proof (cases "int d = nDimension t - 1")
      case True
      with ds show ?thesis by (simp add: default_stride_def)
    next
      case False
      with dn Suc.prems(3) have d1: "Suc d < n" by linarith
      from False ds have "mul64 (size_arr ?t1 ! (d + 1)) (stride_arr ?t1 ! (d + 1)) = Inr s'"
        by (simp add: default_stride_def)
      then have "s' = size_arr t ! Suc d * stride_arr t ! Suc d" by (auto dest: mul64_Inr)
      moreover have "0 \<le> stride_arr t ! Suc d" "size_arr t ! Suc d = sz ! Suc d"
        using Suc.prems(7) d1 by simp_all
      moreover have "0 < sz ! Suc d" using Suc.prems(6) d1 by simp
      ultimately show ?thesis by simp
    qed
  qed
  have s_nonneg: "0 \<le> s"
    using s def_nonneg by (auto simp: new_stride_def split: option.splits if_splits)
  show ?case
  proof (rule Suc.IH[OF rec])
    show "d \<le> n" using dn by simp
    show "int n = nDimension (t\<lparr>size_arr := (size_arr t)[d := sz ! d], stride_arr := (stride_arr t)[d := s]\<rparr>)"
      using Suc.prems(3) by simp
    show "n \<le> length (size_arr (t\<lparr>size_arr := (size_arr t)[d := sz ! d], stride_arr := (stride_arr t)[d := s]\<rparr>))"
      using Suc.prems(4) by simp
    show "n \<le> length (stride_arr (t\<lparr>size_arr := (size_arr t)[d := sz ! d], stride_arr := (stride_arr t)[d := s]\<rparr>))"
      using Suc.prems(5) by simp
    show "\<forall>j < n. 0 < sz ! j" by (rule Suc.prems(6))
    show "\<forall>j. d \<le> j \<and> j < n \<longrightarrow>
        0 \<le> stride_arr (t\<lparr>size_arr := (size_arr t)[d := sz ! d], stride_arr := (stride_arr t)[d := s]\<rparr>) ! j
        \<and> size_arr (t\<lparr>size_arr := (size_arr t)[d := sz ! d], stride_arr := (stride_arr t)[d := s]\<rparr>) ! j = sz ! j"
      using Suc.prems(4,5,7) s_nonneg dn by (auto simp: nth_list_update_gen)
  qed
qed

lemma resizeNd_view_ok:
  assumes t: "tensors h self = Some t" and ok: "view_ok t" and len: "nat nDim \<le> length sz"
    and r: "THCTensor_resizeNd alloc h self nDim sz st = Inr h'"
  shows "\<exists>t'. tensors h' self = Some t' \<and> view_ok t'
     \<and> (\<forall>p. p \<noteq> self \<longrightarrow> tensors h' p = tensors h p)"
proof -
  let ?n = "leading_positive nDim sz"
  from ok have wf: "tensor_wf t" by (simp add: view_ok_def)
  note unf = resizeNd_unfold[OF t len, of alloc st]
  show ?thesis
  proof (cases "resize_noop t nDim sz st")
    case True
    with r unf have "h' = h" by simp
    with t ok show ?thesis by simp
  next
    case noop: False
    show ?thesis
    proof (cases "0 < ?n")
      case False
      with r unf noop have h': "h' = set_tensor h self (t\<lparr>nDimension := 0\<rparr>)" by simp
      have "view_ok (t\<lparr>nDimension := 0\<rparr>)" by (simp add: view_ok_def tensor_wf_def)
      with h' show ?thesis by simp
    next
      case True
      let ?t1 = "resize_target t ?n"
      from r unf noop True obtain t2 T need where
        fill: "resize_fill sz st ?n ?t1 1 = Inr (t2, T)" and
        stor: "resize_storage alloc (set_tensor h self t2) self t2 need = Inr h'"
        by (auto split: sum.splits prod.splits)
      note f = resize_fill_Inr_fields[OF fill]
      note l = resize_target_length[OF wf, of ?n]
      have tens: "tensors h' = (tensors h)(self \<mapsto> t2)"
        using resize_storage_Inr[OF stor] by simp
      have wf2: "tensor_wf t2"
        using f l by (simp add: tensor_wf_def resize_target_fields)
      have pos: "\<forall>j < ?n. 0 < sz ! j" using leading_positive_nth(2) by blast
      have sz2: "\<forall>j < ?n. size_arr t2 ! j = sz ! j"
        using resize_fill_size[OF fill] l by auto
      have st2: "\<forall>j < ?n. 0 \<le> stride_arr t2 ! j"
        by (rule resize_fill_nonneg[OF fill]) (use l pos in \<open>simp_all add: resize_target_fields\<close>)
      have "view_ok t2"
        using wf2 pos sz2 st2 f by (simp add: view_ok_def resize_target_fields)
      with tens show ?thesis by simp
    qed
  qed
qed

lemma heap_ok_update:
  assumes "heap_ok h" and "tensors h' self = Some t'" and "view_ok t'"
    and "\<forall>p. p \<noteq> self \<longrightarrow> tensors h' p = tensors h p"
  shows "heap_ok h'"
  unfolding heap_ok_def
proof (intro allI impI)
  fix p t assume pt: "tensors h' p = Some t"
  show "view_ok t"
  proof (cases "p = self")
    case True
    with pt assms(2,3) show ?thesis by simp
  next
    case False
    with pt assms(4) have "tensors h p = Some t" by simp
    with assms(1) show ?thesis by (simp add: heap_ok_def)
  qed
qed

lemma resizeNd_self: "THCTensor_resizeNd alloc h self nDim sz st = Inr h' \<Longrightarrow> \<exists>t. tensors h self = Some t"
  by (auto simp: THCTensor_resizeNd_def split: option.splits)

lemma resizeNd_heap_ok:
  assumes ok: "heap_ok h" and len: "nat nDim \<le> length sz"
    and r: "THCTensor_resizeNd alloc h self nDim sz st = Inr h'"
  shows "heap_ok h'"
proof -
  from resizeNd_self[OF r] obtain t where t: "tensors h self = Some t" by blast
  with ok have "view_ok t" by (simp add: heap_ok_def)
  from resizeNd_view_ok[OF t this len r] ok show ?thesis
    by (auto intro: heap_ok_update)
qed

lemma setStorageNd_heap_ok:
  assumes ok: "heap_ok h" and len: "nat nDim \<le> length sz"
    and r: "THCTensor_setStorageNd alloc h self stg off nDim sz st = Inr h'"
  shows "heap_ok h'"
proof -
  from r obtain t where t: "tensors h self = Some t"
    by (auto simp: THCTensor_setStorageNd_def split: option.splits)
  with ok have okt: "view_ok t" by (simp add: heap_ok_def)
  let ?new = "case stg of Some a \<Rightarrow> Some a
             | None \<Rightarrow> (if storage t = None then None else Some (next_storage h))"
  from r t obtain h3 where
    s3: "setStorageNd_storage h self t stg = Inr h3" and off: "0 \<le> off"
    by (auto simp: THCTensor_setStorageNd_def split: sum.splits if_splits)
  have t3: "tensors h3 = (tensors h)(self \<mapsto> t\<lparr>storage := ?new\<rparr>)"
  proof -
    from setStorageNd_storage_Inr[OF s3] show ?thesis
    proof
      assume "h3 = h \<and> storage t = stg"
      then have "h3 = h" "t\<lparr>storage := ?new\<rparr> = t" by (auto split: option.splits)
      with t show ?thesis by auto
    qed simp
  qed
  let ?t3 = "t\<lparr>storage := ?new, storageOffset := off\<rparr>"
  let ?h4 = "set_tensor h3 self ?t3"
  from r t s3 off t3 have r4: "THCTensor_resizeNd alloc ?h4 self nDim sz st = Inr h'"
    by (simp add: THCTensor_setStorageNd_def)
  have ok3: "view_ok ?t3" using okt by (simp add: view_ok_def tensor_wf_def)
  have "heap_ok ?h4"
  proof (rule heap_ok_update[OF ok _ ok3])
    show "tensors ?h4 self = Some ?t3" by simp
    show "\<forall>p. p \<noteq> self \<longrightarrow> tensors ?h4 p = tensors h p" using t3 by simp
  qed
  from resizeNd_heap_ok[OF this len r4] show ?thesis .
qed

lemma set_heap_ok:
  assumes ok: "heap_ok h" and r: "THCTensor_set alloc h self src = Inr h'"
  shows "heap_ok h'"
proof (cases "self = src")
  case True
  with r ok show ?thesis by (simp add: THCTensor_set_def)
next
  case False
  with r obtain s where s: "tensors h src = Some s"
    and r': "THCTensor_setStorageNd alloc h self (storage s) (storageOffset s)
               (nDimension s) (size_arr s) (Some (stride_arr s)) = Inr h'"
    by (auto simp: THCTensor_set_def split: option.splits)
  from ok s have "nat (nDimension s) \<le> length (size_arr s)"
    by (simp add: heap_ok_def view_ok_def tensor_wf_def)
  from setStorageNd_heap_ok[OF ok this r'] show ?thesis .
qed

lemma to_int32_le: "nat (to_int32 (int n)) \<le> n"
proof -
  have "(int n + 2 ^ 31) mod 2 ^ 32 \<le> int n + 2 ^ 31"
    by (rule zmod_le_nonneg_dividend) simp
  then have "to_int32 (int n) \<le> int n" by (simp add: to_int32_def)
  then show ?thesis by linarith
qed

lemma resize_heap_ok:
  assumes ok: "heap_ok h" and r: "THCTensor_resize alloc h self size_opt stride_opt = Inr h'"
  shows "heap_ok h'"
proof -
  from r obtain sz where
    "THCTensor_resizeNd alloc h self (to_int32 (int (length sz))) sz stride_opt = Inr h'"
    by (auto simp: THCTensor_resize_def split: option.splits if_splits)
  with ok to_int32_le[of "length sz"] show ?thesis by (blast intro: resizeNd_heap_ok)
qed

lemma resizeAs_heap_ok:
  assumes ok: "heap_ok h" and r: "THCTensor_resizeAs alloc h self src = Inr h'"
  shows "heap_ok h'"
proof -
  from r obtain t s where t: "tensors h self = Some t" and s: "tensors h src = Some s"
    by (auto simp: THCTensor_resizeAs_def split: option.splits)
  from ok s have len: "nat (nDimension s) \<le> length (size_arr s)"
    by (simp add: heap_ok_def view_ok_def tensor_wf_def)
  from r t s have "h' = h \<or> THCTensor_resizeNd alloc h self (nDimension s) (size_arr s) None = Inr h'"
    by (auto simp: THCTensor_resizeAs_def Let_def split: if_splits)
  with ok len show ?thesis by (auto intro: resizeNd_heap_ok)
qed

lemma leaves_cases:
  assumes "leaves r h'"
  obtains (returned) "r = Inr h'" | (raised) e where "r = Inl (e, h')" and "recoverable e"
  using assms by (auto simp: leaves_def split: sum.splits)

lemma resizeNd_raised_heap_ok:
  assumes ok: "heap_ok h" and len: "nat nDim \<le> length sz"
    and r: "THCTensor_resizeNd alloc h self nDim sz st = Inl (e, h')" and rec: "recoverable e"
  shows "heap_ok h'"
proof -
  let ?n = "leading_positive nDim sz"
  from r rec obtain t where t: "tensors h self = Some t"
    by (auto simp: THCTensor_resizeNd_def split: option.splits)
  with ok have wf: "tensor_wf t" by (simp add: heap_ok_def view_ok_def)
  from rec have "e \<noteq> SignedOverflow" by auto
  with resizeNd_Inl_view[OF t len r] obtain t' T where
    h': "h' = set_tensor h self t'"
    and fill: "resize_fill sz st ?n (resize_target t ?n) 1 = Inr (t', T)"
    by auto
  note f = resize_fill_Inr_fields[OF fill]
  note l = resize_target_length[OF wf, of ?n]
  have wf2: "tensor_wf t'"
    using f l by (simp add: tensor_wf_def resize_target_fields)
  have pos: "\<forall>j < ?n. 0 < sz ! j" using leading_positive_nth(2) by blast
  have sz2: "\<forall>j < ?n. size_arr t' ! j = sz ! j"
    using resize_fill_size[OF fill] l by auto
  have st2: "\<forall>j < ?n. 0 \<le> stride_arr t' ! j"
    by (rule resize_fill_nonneg[OF fill]) (use l pos in \<open>simp_all add: resize_target_fields\<close>)
  have okt: "view_ok t'"
    using wf2 pos sz2 st2 f by (simp add: view_ok_def resize_target_fields)
  show ?thesis
  proof (rule heap_ok_update[OF ok _ okt])
    show "tensors h' self = Some t'" using h' by simp
    show "\<forall>p. p \<noteq> self \<longrightarrow> tensors h' p = tensors h p" using h' by simp
  qed
qed

lemma resizeNd_leaves_heap_ok:
  assumes "heap_ok h" and "nat nDim \<le> length sz"
    and "leaves (THCTensor_resizeNd alloc h self nDim sz st) h'"
  shows "heap_ok h'"
  using assms(3)
proof (cases rule: leaves_cases)
  case returned
  with assms(1,2) show ?thesis by (rule resizeNd_heap_ok)
next
  case (raised e)
  with assms(1,2) show ?thesis by (rule resizeNd_raised_heap_ok)
qed

lemma setStorageNd_storage_Inl:
  "setStorageNd_storage h self t stg = Inl (e, hx) \<Longrightarrow> \<not> recoverable e"
  by (auto simp: setStorageNd_storage_def THCStorage_free_def THCStorage_retain_def
        THCStorage_new_def read_scalar_type_def
        split: if_splits option.splits sum.splits)

lemma setStorageNd_raised_heap_ok:
  assumes ok: "heap_ok h" and len: "nat nDim \<le> length sz"
    and r: "THCTensor_setStorageNd alloc h self stg off nDim sz st = Inl (e, h')"
    and rec: "recoverable e"
  shows "heap_ok h'"
proof -
  from r rec obtain t where t: "tensors h self = Some t"
    by (auto simp: THCTensor_setStorageNd_def split: option.splits)
  with ok have okt: "view_ok t" by (simp add: heap_ok_def)
  let ?new = "case stg of Some a \<Rightarrow> Some a
             | None \<Rightarrow> (if storage t = None then None else Some (next_storage h))"
  from r t rec obtain h3 where s3: "setStorageNd_storage h self t stg = Inr h3"
    by (cases "setStorageNd_storage h self t stg")
       (auto simp: THCTensor_setStorageNd_def dest: setStorageNd_storage_Inl)
  have t3: "tensors h3 = (tensors h)(self \<mapsto> t\<lparr>storage := ?new\<rparr>)"
  proof -
    from setStorageNd_storage_Inr[OF s3] show ?thesis
    proof
      assume "h3 = h \<and> storage t = stg"
      then have "h3 = h" "t\<lparr>storage := ?new\<rparr> = t" by (auto split: option.splits)
      with t show ?thesis by auto
    qed simp
  qed
  have ok3s: "view_ok (t\<lparr>storage := ?new\<rparr>)" using okt by (simp add: view_ok_def tensor_wf_def)
  have ok3: "heap_ok h3"
  proof (rule heap_ok_update[OF ok _ ok3s])
    show "tensors h3 self = Some (t\<lparr>storage := ?new\<rparr>)" using t3 by simp
    show "\<forall>p. p \<noteq> self \<longrightarrow> tensors h3 p = tensors h p" using t3 by simp
  qed
  show ?thesis
  proof (cases "off < 0")
    case True
    with r t s3 have "h' = h3" by (simp add: THCTensor_setStorageNd_def)
    with ok3 show ?thesis by simp
  next
    case False
    let ?t3 = "t\<lparr>storage := ?new, storageOffset := off\<rparr>"
    let ?h4 = "set_tensor h3 self ?t3"
    from r t s3 False t3 have r4: "THCTensor_resizeNd alloc ?h4 self nDim sz st = Inl (e, h')"
      by (simp add: THCTensor_setStorageNd_def)
    have ok4s: "view_ok ?t3" using okt by (simp add: view_ok_def tensor_wf_def)
    have "heap_ok ?h4"
    proof (rule heap_ok_update[OF ok _ ok4s])
      show "tensors ?h4 self = Some ?t3" by simp
      show "\<forall>p. p \<noteq> self \<longrightarrow> tensors ?h4 p = tensors h p" using t3 by simp
    qed
    from resizeNd_raised_heap_ok[OF this len r4 rec] show ?thesis .
  qed
qed

lemma setStorageNd_leaves_heap_ok:
  assumes "heap_ok h" and "nat nDim \<le> length sz"
    and "leaves (THCTensor_setStorageNd alloc h self stg off nDim sz st) h'"
  shows "heap_ok h'"
  using assms(3)
proof (cases rule: leaves_cases)
  case returned
  with assms(1,2) show ?thesis by (rule setStorageNd_heap_ok)
next
  case (raised e)
  with assms(1,2) show ?thesis by (rule setStorageNd_raised_heap_ok)
qed

lemma set_raised_heap_ok:
  assumes ok: "heap_ok h" and r: "THCTensor_set alloc h self src = Inl (e, h')"
    and rec: "recoverable e"
  shows "heap_ok h'"
proof -
  from r rec obtain s where s: "tensors h src = Some s"
    and r': "THCTensor_setStorageNd alloc h self (storage s) (storageOffset s)
               (nDimension s) (size_arr s) (Some (stride_arr s)) = Inl (e, h')"
    by (auto simp: THCTensor_set_def split: option.splits if_splits)
  from ok s have "nat (nDimension s) \<le> length (size_arr s)"
    by (simp add: heap_ok_def view_ok_def tensor_wf_def)
  from setStorageNd_raised_heap_ok[OF ok this r' rec] show ?thesis .
qed

lemma set_leaves_heap_ok:
  assumes "heap_ok h" and "leaves (THCTensor_set alloc h self src) h'"
  shows "heap_ok h'"
  using assms(2)
proof (cases rule: leaves_cases)
  case returned
  with assms(1) show ?thesis by (rule set_heap_ok)
next
  case (raised e)
  with assms(1) show ?thesis by (rule set_raised_heap_ok)
qed

lemma resize_leaves_heap_ok:
  assumes ok: "heap_ok h" and r: "leaves (THCTensor_resize alloc h self size_opt stride_opt) h'"
  shows "heap_ok h'"
proof (cases size_opt)
  case None
  with r have "h' = h" by (simp add: THCTensor_resize_def leaves_def)
  with ok show ?thesis by simp
next
  case (Some sz)
  show ?thesis
  proof (cases "case stride_opt of None \<Rightarrow> False | Some str \<Rightarrow> length str \<noteq> length sz")
    case True
    with Some r have "h' = h" by (simp add: THCTensor_resize_def leaves_def)
    with ok show ?thesis by simp
  next
    case False
    with Some r
    have "leaves (THCTensor_resizeNd alloc h self (to_int32 (int (length sz))) sz stride_opt) h'"
      by (simp add: THCTensor_resize_def)
    with ok to_int32_le[of "length sz"] show ?thesis by (blast intro: resizeNd_leaves_heap_ok)
  qed
qed

lemma resizeAs_leaves_heap_ok:
  assumes ok: "heap_ok h" and r: "leaves (THCTensor_resizeAs alloc h self src) h'"
  shows "heap_ok h'"
proof -
  from r obtain t s where t: "tensors h self = Some t" and s: "tensors h src = Some s"
    by (auto simp: THCTensor_resizeAs_def leaves_def split: option.splits)
  from ok s have len: "nat (nDimension s) \<le> length (size_arr s)"
    by (simp add: heap_ok_def view_ok_def tensor_wf_def)
  from r t s have "h' = h
      \<or> leaves (THCTensor_resizeNd alloc h self (nDimension s) (size_arr s) None) h'"
    by (auto simp: THCTensor_resizeAs_def Let_def leaves_def split: if_splits)
  with ok len show ?thesis by (auto intro: resizeNd_leaves_heap_ok)
qed

lemma squeeze1d_raised_heap_ok:
  assumes ok: "heap_ok h"
    and r: "THCTensor_squeeze1d alloc h self src_opt dimension = Inl (e, h')"
    and rec: "recoverable e"
  shows "heap_ok h'"
proof -
  let ?src = "case src_opt of None \<Rightarrow> self | Some p \<Rightarrow> p"
  from r rec have "h' = h \<or> THCTensor_set alloc h self ?src = Inl (e, h')"
    by (auto simp: THCTensor_squeeze1d_def Let_def
          split: option.splits if_splits sum.splits prod.splits)
  with ok rec show ?thesis by (auto intro: set_raised_heap_ok)
qed

lemma unsqueeze1d_raised_heap_ok:
  assumes ok: "heap_ok h"
    and r: "THCTensor_unsqueeze1d alloc h self src_opt dimension = Inl (e, h')"
    and rec: "recoverable e"
  shows "heap_ok h'"
proof -
  let ?src = "case src_opt of None \<Rightarrow> self | Some p \<Rightarrow> p"
  from r rec have "h' = h \<or> THCTensor_set alloc h self ?src = Inl (e, h')"
    by (auto simp: THCTensor_unsqueeze1d_def Let_def mul64_def
          split: option.splits if_splits sum.splits prod.splits)
  with ok rec show ?thesis by (auto intro: set_raised_heap_ok)
qed

lemma set_Inr_self:
  "THCTensor_set alloc h self src = Inr h1 \<Longrightarrow> self \<noteq> src \<Longrightarrow> \<exists>t. tensors h self = Some t"
  by (auto simp: THCTensor_set_def THCTensor_setStorageNd_def split: option.splits)

lemma squeeze1d_Inr_args:
  assumes "THCTensor_squeeze1d alloc h self src_opt dimension = Inr h'"
  shows "\<exists>V t. tensors h (case src_opt of None \<Rightarrow> self | Some p \<Rightarrow> p) = Some V
               \<and> tensors h self = Some t"
proof -
  let ?src = "case src_opt of None \<Rightarrow> self | Some p \<Rightarrow> p"
  from assms obtain V h1 where V: "tensors h ?src = Some V"
    and s: "THCTensor_set alloc h self ?src = Inr h1"
    by (auto simp: THCTensor_squeeze1d_def Let_def split: option.splits if_splits sum.splits)
  show ?thesis
  proof (cases "self = ?src")
    case True
    with V show ?thesis by auto
  next
    case False
    from set_Inr_self[OF s False] V show ?thesis by auto
  qed
qed

lemma unsqueeze1d_Inr_args:
  assumes "THCTensor_unsqueeze1d alloc h self src_opt dimension = Inr h'"
  shows "\<exists>V t. tensors h (case src_opt of None \<Rightarrow> self | Some p \<Rightarrow> p) = Some V
               \<and> tensors h self = Some t"
proof -
  let ?src = "case src_opt of None \<Rightarrow> self | Some p \<Rightarrow> p"
  from assms obtain V h1 where V: "tensors h ?src = Some V"
    and s: "THCTensor_set alloc h self ?src = Inr h1"
    by (auto simp: THCTensor_unsqueeze1d_def Let_def split: option.splits if_splits sum.splits)
  show ?thesis
  proof (cases "self = ?src")
    case True
    with V show ?thesis by auto
  next
    case False
    from set_Inr_self[OF s False] V show ?thesis by auto
  qed
qed

lemma squeeze1d_heap_ok:
  assumes ok: "heap_ok h" and r: "THCTensor_squeeze1d alloc h self src_opt dimension = Inr h'"
  shows "heap_ok h'"
proof -
  let ?src = "case src_opt of None \<Rightarrow> self | Some p \<Rightarrow> p"
  from squeeze1d_Inr_args[OF r] obtain V t where V: "tensors h ?src = Some V"
    and t: "tensors h self = Some t" by blast
  from ok V t have okV: "view_ok V" and okt: "view_ok t" by (auto simp: heap_ok_def)
  then have wft: "tensor_wf t" and okV': "?src \<noteq> self \<longrightarrow> view_ok V"
    by (simp_all add: view_ok_def)
  from okV have posV: "\<And>j. j < nat (nDimension V) \<Longrightarrow> 0 < size_arr V ! j \<and> 0 \<le> stride_arr V ! j"
    by (simp add: view_ok_def)
  from squeeze1d_Inr_view[OF refl t V wft okV' r] obtain t' where
    oth: "\<forall>p. p \<noteq> self \<longrightarrow> tensors h' p = tensors h p"
    and t': "tensors h' self = Some t'" and wf': "tensor_wf t'"
    and c: "if size_arr V ! nat dimension = 1 \<and> 1 < nDimension V
               then nDimension t' = nDimension V - 1
                 \<and> (\<forall>j. int j < nDimension V - 1 \<longrightarrow>
                       size_arr t' ! j = size_arr V ! (if j < nat dimension then j else j + 1)
                     \<and> stride_arr t' ! j = stride_arr V ! (if j < nat dimension then j else j + 1))
               else nDimension t' = nDimension V
                 \<and> (\<forall>j. int j < nDimension V \<longrightarrow>
                       size_arr t' ! j = size_arr V ! j \<and> stride_arr t' ! j = stride_arr V ! j)"
    by blast
  have "\<forall>d \<in> {0..<nat (nDimension t')}. 0 < size_arr t' ! d \<and> 0 \<le> stride_arr t' ! d"
  proof
    fix d assume "d \<in> {0..<nat (nDimension t')}"
    then have d: "d < nat (nDimension t')" by simp
    show "0 < size_arr t' ! d \<and> 0 \<le> stride_arr t' ! d"
    proof (cases "size_arr V ! nat dimension = 1 \<and> 1 < nDimension V")
      case True
      with c have n: "nDimension t' = nDimension V - 1"
        and e: "\<forall>j. int j < nDimension V - 1 \<longrightarrow>
                       size_arr t' ! j = size_arr V ! (if j < nat dimension then j else j + 1)
                     \<and> stride_arr t' ! j = stride_arr V ! (if j < nat dimension then j else j + 1)"
        by simp_all
      from d n have dj: "int d < nDimension V - 1" by linarith
      then have "(if d < nat dimension then d else d + 1) < nat (nDimension V)" by auto
      from posV[OF this] e[rule_format, OF dj] show ?thesis by simp
    next
      case False
      with c have n: "nDimension t' = nDimension V"
        and e: "\<forall>j. int j < nDimension V \<longrightarrow>
                       size_arr t' ! j = size_arr V ! j \<and> stride_arr t' ! j = stride_arr V ! j"
        by simp_all
      from d n have dj: "int d < nDimension V" and dn: "d < nat (nDimension V)" by linarith+
      from posV[OF dn] e[rule_format, OF dj] show ?thesis by simp
    qed
  qed
  with wf' have "view_ok t'" by (simp add: view_ok_def)
  from heap_ok_update[OF ok t' this oth] show ?thesis .
qed

lemma unsqueeze1d_heap_ok:
  assumes ok: "heap_ok h" and r: "THCTensor_unsqueeze1d alloc h self src_opt dimension = Inr h'"
  shows "heap_ok h'"
proof -
  let ?src = "case src_opt of None \<Rightarrow> self | Some p \<Rightarrow> p"
  let ?a = "nat dimension"
  from unsqueeze1d_Inr_args[OF r] obtain V t where V: "tensors h ?src = Some V"
    and t: "tensors h self = Some t" by blast
  from ok V t have okV: "view_ok V" and okt: "view_ok t" by (auto simp: heap_ok_def)
  then have wft: "tensor_wf t" and okV': "?src \<noteq> self \<longrightarrow> view_ok V"
    by (simp_all add: view_ok_def)
  from okV have posV: "\<And>j. j < nat (nDimension V) \<Longrightarrow> 0 < size_arr V ! j \<and> 0 \<le> stride_arr V ! j"
    by (simp add: view_ok_def)
  from unsqueeze1d_Inr_view[OF refl t V wft okV' r] obtain t' where
    rng: "0 \<le> dimension" "dimension \<le> nDimension V" "0 < nDimension V"
    and oth: "\<forall>p. p \<noteq> self \<longrightarrow> tensors h' p = tensors h p"
    and t': "tensors h' self = Some t'" and wf': "tensor_wf t'"
    and n: "nDimension t' = nDimension V + 1"
    and e: "\<forall>j \<le> nat (nDimension V).
                 size_arr t' ! j =
                   (if j < ?a then size_arr V ! j
                    else if j = ?a then 1 else size_arr V ! (j - 1))
               \<and> stride_arr t' ! j =
                   (if j < ?a then stride_arr V ! j
                    else if j = ?a
                    then (if dimension < nDimension V
                          then size_arr V ! ?a * stride_arr V ! ?a else 1)
                    else stride_arr V ! (j - 1))"
    by blast
  have "\<forall>d \<in> {0..<nat (nDimension t')}. 0 < size_arr t' ! d \<and> 0 \<le> stride_arr t' ! d"
  proof
    fix d assume "d \<in> {0..<nat (nDimension t')}"
    with n rng have d: "d \<le> nat (nDimension V)" by simp
    note ed = e[rule_format, OF d]
    consider (lt) "d < ?a" | (eq) "d = ?a" | (gt) "?a < d" by linarith
    then show "0 < size_arr t' ! d \<and> 0 \<le> stride_arr t' ! d"
    proof cases
      case lt
      with rng have "d < nat (nDimension V)" by linarith
      from posV[OF this] ed lt show ?thesis by simp
    next
      case eq
      show ?thesis
      proof (cases "dimension < nDimension V")
        case True
        with rng have "?a < nat (nDimension V)" by linarith
        from posV[OF this] have "0 \<le> size_arr V ! ?a * stride_arr V ! ?a" by simp
        with ed eq True show ?thesis by simp
      next
        case False
        with ed eq show ?thesis by simp
      qed
    next
      case gt
      with d have "d - 1 < nat (nDimension V)" by linarith
      from posV[OF this] ed gt show ?thesis by simp
    qed
  qed
  with wf' have "view_ok t'" by (simp add: view_ok_def)
  from heap_ok_update[OF ok t' this oth] show ?thesis .
qed

lemma squeeze1d_leaves_heap_ok:
  assumes "heap_ok h" and "leaves (THCTensor_squeeze1d alloc h self src_opt dimension) h'"
  shows "heap_ok h'"
  using assms(2)
proof (cases rule: leaves_cases)
  case returned
  with assms(1) show ?thesis by (rule squeeze1d_heap_ok)
next
  case (raised e)
  with assms(1) show ?thesis by (rule squeeze1d_raised_heap_ok)
qed

lemma unsqueeze1d_leaves_heap_ok:
  assumes "heap_ok h" and "leaves (THCTensor_unsqueeze1d alloc h self src_opt dimension) h'"
  shows "heap_ok h'"
  using assms(2)
proof (cases rule: leaves_cases)
  case returned
  with assms(1) show ?thesis by (rule unsqueeze1d_heap_ok)
next
  case (raised e)
  with assms(1) show ?thesis by (rule unsqueeze1d_raised_heap_ok)
qed

lemma built_heap_ok: "built h \<Longrightarrow> heap_ok h"
proof (induction rule: built.induct)
  case (fresh h)
  then show ?case by (auto simp: heap_ok_def view_ok_def tensor_wf_def)
next
  case (create h p)
  have "view_ok new_view" by (simp add: view_ok_def tensor_wf_def new_view_def)
  with create.IH show ?case by (auto simp: heap_ok_def)
next
  case (resizeNd h nDim sz alloc self st h')
  then show ?case by (blast intro: resizeNd_leaves_heap_ok)
next
  case (resize h alloc self size_opt stride_opt h')
  then show ?case by (blast intro: resize_leaves_heap_ok)
next
  case (resizeAs h alloc self src h')
  then show ?case by (blast intro: resizeAs_leaves_heap_ok)
next
  case (setStorageNd h nDim sz alloc self stg off st h')
  then show ?case by (blast intro: setStorageNd_leaves_heap_ok)
next
  case (set h alloc self src h')
  then show ?case by (blast intro: set_leaves_heap_ok)
next
  case (squeeze1d h alloc self src_opt dimension h')
  then show ?case by (blast intro: squeeze1d_leaves_heap_ok)
next
  case (unsqueeze1d h alloc self src_opt dimension h')
  then show ?case by (blast intro: unsqueeze1d_leaves_heap_ok)
qed

text \<open>
  Claim C10, as amended. Every view of a heap built through the shape-mutating operations
  (\<open>resizeNd\<close>, \<open>resize\<close>, \<open>resizeAs\<close>, \<open>setStorageNd\<close>, \<open>set\<close>, \<open>squeeze1d\<close>,
  \<open>unsqueeze1d\<close>) from views of dimensionality 0 has all its sizes strictly positive (and
  its strides non-negative), also after calls that raised an argument error, \<open>THError\<close>
  or an allocation error; so for such a view whose running products of sizes stay within
  the 64-bit signed range, \<open>THCTensor_nElement\<close> is 0 exactly when the dimensionality
  is 0.
\<close>

theorem built_sizes_positive:
  assumes "built h" and "tensors h p = Some t"
  shows "(\<forall>d. int d < nDimension t \<longrightarrow> 0 < size_arr t ! d \<and> 0 \<le> stride_arr t ! d)
     \<and> (products_fit t \<longrightarrow> (THCTensor_nElement t = 0 \<longleftrightarrow> nDimension t = 0))"
proof -
  from built_heap_ok[OF assms(1)] assms(2) have ok: "view_ok t" by (simp add: heap_ok_def)
  then have pos: "\<forall>d. int d < nDimension t \<longrightarrow> 0 < size_arr t ! d \<and> 0 \<le> stride_arr t ! d"
    by (simp add: view_ok_def int_less_nat)
  have "products_fit t \<longrightarrow> (THCTensor_nElement t = 0 \<longleftrightarrow> nDimension t = 0)"
  proof
    assume fit: "products_fit t"
    show "THCTensor_nElement t = 0 \<longleftrightarrow> nDimension t = 0"
    proof (cases "nDimension t = 0")
      case True
      then show ?thesis by (simp add: THCTensor_nElement_def)
    next
      case False
      with fit have "THCTensor_nElement t = (\<Prod>j = 0..<nat (nDimension t). size_arr t ! j)"
        by (rule nElement_fit)
      moreover have "(\<Prod>j = 0..<nat (nDimension t). size_arr t ! j) \<noteq> 0"
        using pos by (auto simp: prod_zero_iff int_less_nat)
      ultimately show ?thesis using False by simp
    qed
  qed
  with pos show ?thesis by blast
qed

lemma built_ex_heap: "built ex_heap"
  by (rule built.fresh) (auto simp: ex_heap_def new_view_def split: if_splits)

lemma built_resized_heap: "built resized_heap"
proof -
  have len: "nat 2 \<le> length [4, 3 :: int]" by simp
  have "THCTensor_resizeNd enough_memory ex_heap 3 2 [4, 3] None = Inr resized_heap"
    by (simp add: eval_defs ex_heap_def new_view_def set_tensor_def resized_heap_def view_4_3_def)
  then have "leaves (THCTensor_resizeNd enough_memory ex_heap 3 2 [4, 3] None) resized_heap"
    by (simp add: leaves_def)
  with built_ex_heap len show ?thesis by (rule built.resizeNd)
qed

theorem built_sizes_positive_witness:
  "built resized_heap \<and> tensors resized_heap 3 = Some view_4_3
   \<and> 0 < size_arr view_4_3 ! 0 \<and> 0 < size_arr view_4_3 ! 1
   \<and> products_fit view_4_3
   \<and> THCTensor_nElement view_4_3 \<noteq> 0 \<and> nDimension view_4_3 \<noteq> 0"
proof -
  have t: "tensors resized_heap 3 = Some view_4_3" by (simp add: resized_heap_def)
  have nz: "nDimension view_4_3 \<noteq> 0" by (simp add: view_4_3_def)
  from built_sizes_positive[OF built_resized_heap t]
  have pos: "\<forall>d. int d < nDimension view_4_3 \<longrightarrow> 0 < size_arr view_4_3 ! d \<and> 0 \<le> stride_arr view_4_3 ! d"
    and ne: "products_fit view_4_3 \<longrightarrow> (THCTensor_nElement view_4_3 = 0 \<longleftrightarrow> nDimension view_4_3 = 0)"
    by blast+
  from pos[rule_format, of 0] pos[rule_format, of 1]
  have "0 < size_arr view_4_3 ! 0 \<and> 0 < size_arr view_4_3 ! 1" by (simp add: view_4_3_def)
  moreover from ne products_fit_4_3 nz have "THCTensor_nElement view_4_3 \<noteq> 0" by simp
  ultimately show ?thesis using built_resized_heap t products_fit_4_3 nz by blast
qed

text \<open>
  Claim C10 as stated fails in its second half: one resize of a rank-0 view to the sizes
  \<open>[2^32, 2^32]\<close> with the explicit strides \<open>[0, 0]\<close> returns (the footprint is one
  element), and the view it builds has dimensionality 2 and the element count 0.
\<close>

theorem built_sizes_positive_counterexample:
  "THCTensor_resizeNd enough_memory ex_heap 3 2 [4294967296, 4294967296] (Some [0, 0])
     = Inr big_heap
   \<and> built big_heap \<and> tensors big_heap 3 = Some view_big
   \<and> nDimension view_big = 2 \<and> THCTensor_nElement view_big = 0"
proof -
  have r: "THCTensor_resizeNd enough_memory ex_heap 3 2 [4294967296, 4294967296] (Some [0, 0])
     = Inr big_heap"
    by (simp add: eval_defs ex_heap_def new_view_def set_tensor_def big_heap_def view_big_def)
  then have l: "leaves (THCTensor_resizeNd enough_memory ex_heap 3 2 [4294967296, 4294967296]
      (Some [0, 0])) big_heap"
    by (simp add: leaves_def)
  have len: "nat 2 \<le> length [4294967296, 4294967296 :: int]" by simp
  have "built big_heap" using built_ex_heap len l by (rule built.resizeNd)
  moreover have "tensors big_heap 3 = Some view_big" by (simp add: big_heap_def)
  moreover have "nDimension view_big = 2 \<and> THCTensor_nElement view_big = 0"
    by (simp add: THCTensor_nElement_def view_big_def nElement_loop.simps wrap64_def)
  ultimately show ?thesis using r by blast
qed

end
